theory Spec2Isabelle
  imports Complex_Main
begin

section \<open>Backoff generator (\<open>getExpSleeper\<close>, index.ts lines 6-15)\<close>

subsection \<open>Numbers\<close>

text \<open>
  JavaScript numbers are IEEE 754 binary64 values, and the result of every arithmetic
  operation is the exact result rounded to the nearest such value, ties to the one with an
  even significand.  The finite values are modelled by the reals they denote.

  \<open>rne\<close> rounds a real to the nearest integer, ties to even.  A binary64 value has a
  significand of 53 bits; \<open>exponent x\<close> is the binary exponent of \<open>x\<close>, not below \<open>-1022\<close>
  (below \<open>2 ^ -1022\<close> the values are subnormal, spaced \<open>2 ^ -1074\<close> apart), \<open>ulp x\<close> is the
  spacing of the values around \<open>x\<close>, and \<open>binary64 x\<close> is \<open>x\<close> rounded.  The exponent is not
  bounded from above: a result of magnitude \<open>2 ^ 1024\<close> or more, which is \<open>Infinity\<close> in
  JavaScript, is here a real at least as large.  The only operation of the generator that
  can overflow is \<open>current * 2\<close>, whose result goes to \<open>Math.min(..., max)\<close>, which is
  \<open>max\<close> in both readings when \<open>max\<close> is finite.  \<open>finite_double x\<close> says that \<open>x\<close> is a
  finite binary64 value.
\<close>

definition rne :: "real \<Rightarrow> int" where
  "rne y =
     (let f = \<lfloor>y\<rfloor>; d = y - of_int f
      in if d < 1 / 2 then f else if 1 / 2 < d then f + 1 else if even f then f else f + 1)"

definition exponent :: "real \<Rightarrow> int" where
  "exponent x = (if \<bar>x\<bar> < 2 powr (- 1022) then - 1022 else \<lfloor>log 2 \<bar>x\<bar>\<rfloor>)"

definition ulp :: "real \<Rightarrow> real" where
  "ulp x = 2 powr (of_int (exponent x) - 52)"

definition binary64 :: "real \<Rightarrow> real" where
  "binary64 x = of_int (rne (x / ulp x)) * ulp x"


subsection \<open>The generator\<close>

text \<open>
  \<open>getExpSleeper(base, max)\<close> returns a closure over the mutable variable \<open>current\<close>.
  The closure is modelled by its captured variables: \<open>current\<close> and the parameter \<open>max\<close>.

  A call of the closure is not atomic.  It reads \<open>current\<close>, draws \<open>Math.random()\<close> (here
  the argument \<open>rnd\<close>), computes \<open>delay\<close> and suspends at \<open>await sleep(delay)\<close> (lines 9-12:
  \<open>expSleeper_call\<close>, whose value is the delay slept).  When the timer fires it reads
  \<open>current\<close> again and writes the doubled value (line 13: \<open>expSleeper_resume\<close>).  Other
  calls on the same instance may start in between.
\<close>

record sleeper =
  current :: real
  max_delay :: real


definition jittered :: "real \<Rightarrow> sleeper \<Rightarrow> real" where
  "jittered rnd s =
     (let mn = binary64 (current s / 2)
      in binary64 (binary64 (rnd * binary64 (current s - mn)) + mn))"

definition expSleeper_call :: "real \<Rightarrow> sleeper \<Rightarrow> real" where
  "expSleeper_call rnd s = min (jittered rnd s) (max_delay s)"

definition expSleeper_resume :: "sleeper \<Rightarrow> sleeper" where
  "expSleeper_resume s = s\<lparr>current := min (binary64 (current s * 2)) (max_delay s)\<rparr>"

text \<open>
  What happens to one instance, in order: a call starts with a random draw (\<open>Called\<close>),
  or the sleep of an earlier call ends (\<open>Slept\<close>); all sleeps end in the same way, so the
  event does not say which one it is.  Every schedule of the program is such a list (one
  in which no prefix has more \<open>Slept\<close> than \<open>Called\<close>).  \<open>backoff_log\<close> lists, for every
  call, the value of \<open>current\<close> when the call starts and the delay it sleeps;
  \<open>backoff_state\<close> is the instance at the end.
\<close>

datatype backoff_event = Called real | Slept

fun backoff_log :: "backoff_event list \<Rightarrow> sleeper \<Rightarrow> (real \<times> real) list" where
  "backoff_log [] s = []"
| "backoff_log (Called r # evs) s = (current s, expSleeper_call r s) # backoff_log evs s"
| "backoff_log (Slept # evs) s = backoff_log evs (expSleeper_resume s)"


text \<open>Calls made one after the other, each awaited before the next starts.\<close>

fun in_sequence :: "real list \<Rightarrow> backoff_event list" where
  "in_sequence [] = []"
| "in_sequence (r # rs) = Called r # Slept # in_sequence rs"




section \<open>JSON decoding and the listen pipeline (\<open>safeJson\<close>, \<open>listen\<close>)\<close>

text \<open>
  A JavaScript value that may be \<open>undefined\<close>.  \<open>JSON.parse\<close> never returns
  \<open>undefined\<close>: it returns a JSON value (\<open>null\<close> included) or throws a SyntaxError.
\<close>

datatype 'v js = Undefined | Defined 'v

text \<open>
  \<open>safeJson\<close> (index.ts lines 17-23).  The platform function
  \<open>buf \<mapsto> JSON.parse(buf.toString())\<close> is the parameter \<open>JSON_parse\<close>; \<open>None\<close> stands for a
  thrown exception, which the \<open>catch\<close> turns into \<open>undefined\<close>.
\<close>

definition safeJson :: "(string \<Rightarrow> 'v option) \<Rightarrow> string \<Rightarrow> 'v js" where
  "safeJson JSON_parse buf = (case JSON_parse buf of Some v \<Rightarrow> Defined v | None \<Rightarrow> Undefined)"

text \<open>The driver's \<open>ConsumeMessage\<close>: the body and the fields the program reads.\<close>

record consume_message =
  msg_content :: string
  msg_routingKey :: string
  msg_deliveryTag :: nat

text \<open>The envelope \<open>Message<T>\<close> (types.ts) that \<open>listen\<close> yields.\<close>

record 'v message =
  raw :: consume_message
  content :: string
  data :: "'v js"
  contentIsJson :: bool
  routingKey :: string

text \<open>\<open>ListenOptions\<close> (types.ts): every field is optional, and so is the record itself.\<close>

record listen_options =
  json :: "bool option"
  prefetch :: "nat option"
  routingKeys :: "string list option"

text \<open>
  One turn of the \<open>for await\<close> loop of \<open>listen\<close> (index.ts lines 128-141) on a raw delivery:
  either \<open>channels.consumer.nack(msg, allUpTo, requeue)\<close> followed by \<open>continue\<close>, or the
  \<open>yield\<close> of an envelope.
\<close>

datatype 'v listen_step = Nack consume_message bool bool | Yield "'v message"

definition json_enabled :: "listen_options option \<Rightarrow> bool" where
  "json_enabled opts = (Option.bind opts json \<noteq> Some False)"

definition prefetch_count :: "listen_options option \<Rightarrow> nat" where
  "prefetch_count opts = (case Option.bind opts prefetch of Some n \<Rightarrow> n | None \<Rightarrow> 10)"

definition listen_msg ::
  "(string \<Rightarrow> 'v option) \<Rightarrow> listen_options option \<Rightarrow> consume_message \<Rightarrow> 'v listen_step" where
  "listen_msg JSON_parse opts msg =
     (let parsed = (if json_enabled opts then safeJson JSON_parse (msg_content msg) else Undefined);
          rk = msg_routingKey msg;
          envelope = \<lparr>raw = msg, content = msg_content msg, data = parsed,
                      contentIsJson = (parsed \<noteq> Undefined), routingKey = rk\<rparr>
      in case Option.bind opts routingKeys of
           Some keys \<Rightarrow> if rk \<notin> set keys then Nack msg False False else Yield envelope
         | None \<Rightarrow> Yield envelope)"

text \<open>
  The loop of \<open>listen\<close> over the raw deliveries that the consume sequence hands to it, in
  order: the envelopes yielded to the caller and the deliveries rejected on the way.
\<close>

fun listen_yields :: "'v listen_step list \<Rightarrow> 'v message list" where
  "listen_yields [] = []"
| "listen_yields (Yield e # xs) = e # listen_yields xs"
| "listen_yields (Nack m a r # xs) = listen_yields xs"

fun listen_nacks :: "'v listen_step list \<Rightarrow> (consume_message \<times> bool \<times> bool) list" where
  "listen_nacks [] = []"
| "listen_nacks (Yield e # xs) = listen_nacks xs"
| "listen_nacks (Nack m a r # xs) = (m, a, r) # listen_nacks xs"

definition listen :: "(string \<Rightarrow> 'v option) \<Rightarrow> listen_options option \<Rightarrow> consume_message list
    \<Rightarrow> 'v listen_step list" where
  "listen JSON_parse opts msgs = map (listen_msg JSON_parse opts) msgs"

text \<open>
  A small stand-in for \<open>JSON.parse\<close>, used only to evaluate examples: it accepts the JSON
  literals \<open>true\<close>, \<open>false\<close> and \<open>null\<close> and rejects every other text.
\<close>

datatype json_literal = JTrue | JFalse | JNull

definition parse_literal :: "string \<Rightarrow> json_literal option" where
  "parse_literal s = (if s = ''true'' then Some JTrue else if s = ''false'' then Some JFalse
     else if s = ''null'' then Some JNull else None)"


section \<open>The consume sequence (\<open>consumeGenerator\<close>, index.ts lines 92-119)\<close>

text \<open>
  The async generator is a coroutine.  Its local variables are \<open>buffer\<close> and \<open>notify\<close>; the
  place where it is suspended is \<open>phase\<close>:
  \<^item> \<open>NotStarted\<close>: created, body not yet entered (no \<open>next()\<close> so far);
  \<^item> \<open>Starting\<close>: inside the first \<open>await startConsumer()\<close>;
  \<^item> \<open>Suspended\<close>: at \<open>yield\<close>, with no request outstanding;
  \<^item> \<open>Waiting\<close>: at \<open>await ready()\<close>, and \<open>notify\<close> is the resolver of that pending promise;
  \<^item> \<open>Woken\<close>: \<open>notify()\<close> has resolved the promise, the continuation has not run yet;
  \<^item> \<open>Failed\<close>: the first \<open>startConsumer()\<close> threw, the generator has completed.

  In every phase but \<open>Waiting\<close> a call of \<open>notify\<close> does nothing (it is the initial empty
  function or the resolver of a promise that is already resolved).  \<open>requests\<close> counts the
  \<open>next()\<close> requests not yet answered and \<open>yielded\<close> records what has been yielded.
\<close>

datatype phase = NotStarted | Starting | Suspended | Waiting | Woken | Failed

record 'm consume_state =
  buffer :: "'m list"
  phase :: phase
  requests :: nat
  yielded :: "'m list"

definition consumeGenerator :: "'m consume_state" where
  "consumeGenerator = \<lparr>buffer = [], phase = NotStarted, requests = 0, yielded = []\<rparr>"

definition notify :: "'m consume_state \<Rightarrow> 'm consume_state" where
  "notify s = (if phase s = Waiting then s\<lparr>phase := Woken\<rparr> else s)"

text \<open>
  The callback given to \<open>channel.consume\<close> (lines 104-108); \<open>None\<close> is the \<open>null\<close> message.
\<close>

definition consumer_callback :: "'m option \<Rightarrow> 'm consume_state \<Rightarrow> 'm consume_state" where
  "consumer_callback msg s =
     (case msg of None \<Rightarrow> s | Some m \<Rightarrow> notify (s\<lparr>buffer := buffer s @ [m]\<rparr>))"

text \<open>
  The \<open>while (true)\<close> loop (lines 113-118), run while a request is outstanding: each
  \<open>yield buffer.shift()\<close> answers one request; the generator stops at the \<open>yield\<close> when no
  request is left, and at \<open>await ready()\<close> when the buffer is empty.
\<close>

function pull_loop :: "'m consume_state \<Rightarrow> 'm consume_state" where
  "pull_loop s =
     (case buffer s of
        [] \<Rightarrow> s\<lparr>phase := Waiting\<rparr>
      | m # rest \<Rightarrow>
          (let s' = s\<lparr>buffer := rest, yielded := yielded s @ [m], requests := requests s - 1\<rparr>
           in if requests s' = 0 then s'\<lparr>phase := Suspended\<rparr> else pull_loop s'))"
  by pat_completeness auto
termination
  by (relation "measure (\<lambda>s. length (buffer s))") auto

text \<open>A \<open>next()\<close> request of the consumer (the \<open>for await\<close> of \<open>listen\<close>).\<close>

definition next_request :: "'m consume_state \<Rightarrow> 'm consume_state" where
  "next_request s =
     (case phase s of
        NotStarted \<Rightarrow> s\<lparr>requests := requests s + 1, phase := Starting\<rparr>
      | Suspended \<Rightarrow> pull_loop (s\<lparr>requests := requests s + 1\<rparr>)
      | Failed \<Rightarrow> s
      | _ \<Rightarrow> s\<lparr>requests := requests s + 1\<rparr>)"

text \<open>The continuation of \<open>await ready()\<close>.\<close>

definition wake :: "'m consume_state \<Rightarrow> 'm consume_state" where
  "wake s = (if phase s = Woken then pull_loop s else s)"

text \<open>
  \<open>startConsumer\<close> after its \<open>await prefetch\<close> (line 99): \<open>buffer.length = 0\<close>; and the
  generator entering its loop when the first \<open>await startConsumer()\<close> returns.
\<close>

definition clear_buffer :: "'m consume_state \<Rightarrow> 'm consume_state" where
  "clear_buffer s = s\<lparr>buffer := []\<rparr>"

definition enter_loop :: "'m consume_state \<Rightarrow> 'm consume_state" where
  "enter_loop s = (if phase s = Starting then pull_loop s else s)"

text \<open>
  What can happen to a live consume sequence when no connection fails: the consumer asks
  for the next item, the broker pushes a delivery (or \<open>null\<close>), the continuation of
  \<open>await ready()\<close> runs.
\<close>

datatype 'm consume_event = Next | Push "'m option" | Wake

fun consume_step :: "'m consume_state \<Rightarrow> 'm consume_event \<Rightarrow> 'm consume_state" where
  "consume_step s Next = next_request s"
| "consume_step s (Push msg) = consumer_callback msg s"
| "consume_step s Wake = wake s"

definition consume_run :: "'m consume_event list \<Rightarrow> 'm consume_state \<Rightarrow> 'm consume_state" where
  "consume_run evs s = foldl consume_step s evs"

fun pushed :: "'m consume_event list \<Rightarrow> 'm list" where
  "pushed [] = []"
| "pushed (Push (Some m) # evs) = m # pushed evs"
| "pushed (e # evs) = pushed evs"

fun pulls :: "'m consume_event list \<Rightarrow> nat" where
  "pulls [] = 0"
| "pulls (Next # evs) = Suc (pulls evs)"
| "pulls (e # evs) = pulls evs"

text \<open>
  The sequence once subscribed: the first \<open>next()\<close> has entered the body, \<open>startConsumer\<close>
  has returned and the loop has found the buffer empty.
\<close>

definition subscribed :: "'m consume_state" where
  "subscribed = enter_loop (clear_buffer (next_request consumeGenerator))"

text \<open>
  The state the loop is in while it runs or is parked: a request is outstanding exactly
  when the generator is not stopped at a \<open>yield\<close>, and it only waits on an empty buffer.
\<close>

definition live :: "'m consume_state \<Rightarrow> bool" where
  "live s = ((phase s = Suspended \<and> requests s = 0)
     \<or> (phase s = Waiting \<and> buffer s = [] \<and> 0 < requests s)
     \<or> (phase s = Woken \<and> 0 < requests s))"


section \<open>The gateway (\<open>coniglio\<close>, index.ts lines 39-204)\<close>

text \<open>
  The program is single-threaded: a callback or the continuation of an \<open>await\<close> runs to its
  next \<open>await\<close> without interruption, and the continuations waiting on a promise run, in
  the order in which they started to wait, before the next event of the outside world is
  handled.  The gateway is therefore a transition system.  Its state holds the variables
  of the closure (\<open>conn\<close>, \<open>channels\<close>, \<open>loginInProgress\<close>, \<open>expSleeperPublisher\<close>), the
  listeners attached to connection and channel objects, and the suspended coroutines; an
  event is something the driver, a timer or the caller does.  Time is abstract: a backoff
  sleep is a timer that fires at some later event (the length of the sleep is the subject
  of the backoff section).

  Objects (connections, channels), coroutines and backoff instances are named by numbers
  taken from the counter \<open>fresh\<close>.
\<close>

datatype log_line = ConnectionError | ConnectionClosed | ConsumerChannelError
  | PublisherChannelError | LoginError | PublishError

text \<open>
  The three kinds of listener the program attaches with \<open>once\<close>: a logger (lines 68, 75,
  77), the reconnecting \<open>close\<close> listener of \<open>login\<close> (lines 69-73, with the backoff
  instance it sleeps on) and the resubscribing \<open>error\<close> listener of \<open>startConsumer\<close>
  (lines 100-103, with its generator).
\<close>

datatype listener = Log log_line | Reconnect nat | Resubscribe nat

text \<open>The calls made on the driver, on timers and on the logger, in program order.\<close>

datatype action =
    Connect string
  | CreateChannel nat
  | CreateConfirmChannel nat
  | CloseChannel nat
  | CloseConnection nat
  | Prefetch nat nat
  | Consume nat string
  | Publish nat string string string
  | Sleep nat
  | Logged log_line

text \<open>
  A payload given to \<open>publish\<close> is a string or another value.  \<open>JSON.stringify\<close> is a
  parameter; \<open>None\<close> stands for the values it cannot encode (it throws, or returns
  \<open>undefined\<close> and \<open>Buffer.from\<close> throws), in which case the attempt fails inside the \<open>try\<close>.
\<close>

datatype 'v payload = Text string | Value 'v

definition serialize :: "('v \<Rightarrow> string option) \<Rightarrow> 'v payload \<Rightarrow> string option" where
  "serialize JSON_stringify payload =
     (case payload of Text s \<Rightarrow> Some s | Value v \<Rightarrow> JSON_stringify v)"

text \<open>
  A coroutine suspended on a promise of the driver or on a timer, and what a coroutine
  that awaits \<open>login()\<close> does next.
\<close>

datatype 'v task =
    LoginConnect
  | LoginConsumerChannel nat
  | LoginPublisherChannel nat
  | LoginBackoff
  | CloseBackoff
  | StartConsumer nat bool
  | PublishConfirm string string "'v payload"
  | PublishBackoff string string "'v payload"

datatype 'v cont =
    Boot
  | CloseHandlerDone
  | Restart nat
  | Republish nat string string "'v payload"

record 'v gateway =
  url :: string
  conn :: "nat option"
  consumer :: "nat option"
  publisher :: "nat option"
  loginInProgress :: "nat option"
  expSleeperPublisher :: nat
  booted :: bool
  fresh :: nat
  on_error :: "nat \<Rightarrow> listener list"
  on_close :: "nat \<Rightarrow> listener list"
  on_channel_error :: "nat \<Rightarrow> listener list"
  owner :: "nat \<Rightarrow> nat option"
  closed_by_us :: "nat set"
  pending :: "nat \<Rightarrow> 'v task option"
  waiters :: "(nat \<times> 'v cont) list"
  consumers :: "(nat \<times> nat) list"
  subs :: "nat \<Rightarrow> (string \<times> nat) option"
  seqs :: "nat \<Rightarrow> consume_message consume_state"
  trace :: "action list"
  logins :: nat
  resolved :: "nat list"
  resumed :: "'v cont list"

text \<open>
  \<open>on_error\<close> and \<open>on_close\<close> hold the listeners of each connection, \<open>on_channel_error\<close>
  the \<open>error\<close> listeners of each channel.
  \<open>owner\<close> maps a channel to the connection it was created on, \<open>closed_by_us\<close> holds the
  objects on which the program has called \<open>close()\<close>, \<open>consumers\<close> the callbacks registered
  with \<open>channel.consume\<close> (channel, generator), \<open>subs\<close> the parameters (queue, prefetch) of
  each generator and \<open>seqs\<close> its state.  \<open>trace\<close>, \<open>logins\<close> (the number of login sequences
  started), \<open>resolved\<close> (the publish calls that have returned) and \<open>resumed\<close> (the
  continuations of \<open>await login()\<close> that have run) only observe the run.
\<close>

definition act :: "action \<Rightarrow> 'v gateway \<Rightarrow> 'v gateway" where
  "act a s = s\<lparr>trace := trace s @ [a]\<rparr>"

definition once_error :: "nat \<Rightarrow> listener \<Rightarrow> 'v gateway \<Rightarrow> 'v gateway" where
  "once_error ob l s = s\<lparr>on_error := (on_error s)(ob := on_error s ob @ [l])\<rparr>"

definition once_close :: "nat \<Rightarrow> listener \<Rightarrow> 'v gateway \<Rightarrow> 'v gateway" where
  "once_close ob l s = s\<lparr>on_close := (on_close s)(ob := on_close s ob @ [l])\<rparr>"

definition once_channel_error :: "nat \<Rightarrow> listener \<Rightarrow> 'v gateway \<Rightarrow> 'v gateway" where
  "once_channel_error ch l s =
     s\<lparr>on_channel_error := (on_channel_error s)(ch := on_channel_error s ch @ [l])\<rparr>"

definition removeAllListeners_channel_error :: "nat \<Rightarrow> 'v gateway \<Rightarrow> 'v gateway" where
  "removeAllListeners_channel_error ch s = s\<lparr>on_channel_error := (on_channel_error s)(ch := [])\<rparr>"

definition removeAllListeners_error :: "nat \<Rightarrow> 'v gateway \<Rightarrow> 'v gateway" where
  "removeAllListeners_error ob s = s\<lparr>on_error := (on_error s)(ob := [])\<rparr>"

definition removeAllListeners_close :: "nat \<Rightarrow> 'v gateway \<Rightarrow> 'v gateway" where
  "removeAllListeners_close ob s = s\<lparr>on_close := (on_close s)(ob := [])\<rparr>"

definition close_channel :: "nat \<Rightarrow> 'v gateway \<Rightarrow> 'v gateway" where
  "close_channel ch s = act (CloseChannel ch) (s\<lparr>closed_by_us := insert ch (closed_by_us s)\<rparr>)"

definition close_connection :: "nat \<Rightarrow> 'v gateway \<Rightarrow> 'v gateway" where
  "close_connection c s = act (CloseConnection c) (s\<lparr>closed_by_us := insert c (closed_by_us s)\<rparr>)"

text \<open>Optional chaining \<open>channels.consumer?.f()\<close>.\<close>

definition if_defined :: "nat option \<Rightarrow> (nat \<Rightarrow> 'v gateway \<Rightarrow> 'v gateway) \<Rightarrow> 'v gateway \<Rightarrow> 'v gateway" where
  "if_defined ob f s = (case ob of None \<Rightarrow> s | Some x \<Rightarrow> f x s)"

text \<open>\<open>cleanup(conn, channels)\<close> (lines 25-37); rejected \<open>close()\<close> promises are swallowed.\<close>

definition cleanup :: "'v gateway \<Rightarrow> 'v gateway" where
  "cleanup s =
     (case conn s of
        None \<Rightarrow> s
      | Some c \<Rightarrow>
          (let s1 = removeAllListeners_error c s;
               s2 = removeAllListeners_close c s1;
               s3 = if_defined (consumer s2) removeAllListeners_channel_error s2;
               s4 = if_defined (publisher s3) removeAllListeners_channel_error s3;
               s5 = if_defined (consumer s4) close_channel s4;
               s6 = if_defined (publisher s5) close_channel s5
           in close_connection c s6))"

text \<open>
  The login sequence \<open>p\<close> (the async function of lines 62-86).  \<open>login_attempt\<close> is the
  \<open>try\<close> block up to \<open>await ampqlib.connect(url)\<close>; \<open>login_catch\<close> the \<open>catch\<close> block up to
  \<open>await expSleeper()\<close>; the other functions are the continuations of the three awaits.
\<close>

definition login_attempt :: "nat \<Rightarrow> 'v gateway \<Rightarrow> 'v gateway" where
  "login_attempt p s =
     (let s1 = act (Connect (url s)) (cleanup s) in s1\<lparr>pending := (pending s1)(p \<mapsto> LoginConnect)\<rparr>)"

definition login_catch :: "nat \<Rightarrow> 'v gateway \<Rightarrow> 'v gateway" where
  "login_catch p s =
     (let s1 = act (Sleep p) (act (Logged LoginError) s)
      in s1\<lparr>pending := (pending s1)(p \<mapsto> LoginBackoff)\<rparr>)"

definition login_connected :: "nat \<Rightarrow> 'v gateway \<Rightarrow> 'v gateway" where
  "login_connected p s =
     (let c = fresh s;
          s1 = s\<lparr>fresh := fresh s + 1, conn := Some c\<rparr>;
          s2 = once_error c (Log ConnectionError) s1;
          s3 = once_close c (Reconnect p) s2;
          s4 = act (CreateChannel c) s3
      in s4\<lparr>pending := (pending s4)(p \<mapsto> LoginConsumerChannel c)\<rparr>)"

definition login_consumer_created :: "nat \<Rightarrow> nat \<Rightarrow> 'v gateway \<Rightarrow> 'v gateway" where
  "login_consumer_created p c s =
     (let ch = fresh s;
          s1 = s\<lparr>fresh := fresh s + 1, consumer := Some ch, owner := (owner s)(ch \<mapsto> c)\<rparr>;
          s2 = once_channel_error ch (Log ConsumerChannelError) s1
      in case conn s2 of
           None \<Rightarrow> login_catch p s2
         | Some c' \<Rightarrow>
             (let s3 = act (CreateConfirmChannel c') s2
              in s3\<lparr>pending := (pending s3)(p \<mapsto> LoginPublisherChannel c')\<rparr>))"

text \<open>
  Publishing (lines 152-170).  \<open>publish_attempt\<close> is the \<open>try\<close> block up to the \<open>await\<close> of
  the confirm, \<open>publish_catch\<close> the \<open>catch\<close> block up to \<open>await expSleeperPublisher()\<close>.
\<close>

definition publish_catch :: "nat \<Rightarrow> string \<Rightarrow> string \<Rightarrow> 'v payload \<Rightarrow> 'v gateway \<Rightarrow> 'v gateway" where
  "publish_catch t ex rk payload s =
     (let s1 = act (Sleep (expSleeperPublisher s)) (act (Logged PublishError) s)
      in s1\<lparr>pending := (pending s1)(t \<mapsto> PublishBackoff ex rk payload)\<rparr>)"

definition publish_attempt ::
  "('v \<Rightarrow> string option) \<Rightarrow> nat \<Rightarrow> string \<Rightarrow> string \<Rightarrow> 'v payload \<Rightarrow> 'v gateway \<Rightarrow> 'v gateway" where
  "publish_attempt JSON_stringify t ex rk payload s =
     (case publisher s of
        None \<Rightarrow> publish_catch t ex rk payload s
      | Some channel \<Rightarrow>
          (case serialize JSON_stringify payload of
             None \<Rightarrow> publish_catch t ex rk payload s
           | Some body \<Rightarrow>
               (let s1 = act (Publish channel ex rk body) s
                in s1\<lparr>pending := (pending s1)(t \<mapsto> PublishConfirm ex rk payload)\<rparr>)))"

text \<open>
  \<open>startConsumer\<close> (lines 97-109): the call up to \<open>await prefetch\<close>, its continuation, and
  what is left when the \<open>await\<close> throws (the generator fails if this was its first
  \<open>startConsumer\<close>; in the \<open>error\<close> listener the rejection is unhandled).
\<close>

definition startConsumer_failed :: "nat \<Rightarrow> bool \<Rightarrow> 'v gateway \<Rightarrow> 'v gateway" where
  "startConsumer_failed g initial s =
     (if initial then s\<lparr>seqs := (seqs s)(g := (seqs s g)\<lparr>phase := Failed\<rparr>)\<rparr> else s)"

definition startConsumer :: "nat \<Rightarrow> bool \<Rightarrow> 'v gateway \<Rightarrow> 'v gateway" where
  "startConsumer g initial s =
     (case (consumer s, subs s g) of
        (Some ch, Some (queue, n)) \<Rightarrow>
          (let s1 = act (Prefetch ch n) s
           in s1\<lparr>pending := (pending s1)(fresh s1 \<mapsto> StartConsumer g initial),
                 fresh := fresh s1 + 1\<rparr>)
      | _ \<Rightarrow> startConsumer_failed g initial s)"

definition startConsumer_resumed :: "nat \<Rightarrow> bool \<Rightarrow> 'v gateway \<Rightarrow> 'v gateway" where
  "startConsumer_resumed g initial s =
     (case (conn s, consumer s, subs s g) of
        (Some c, Some ch, Some (queue, n)) \<Rightarrow>
          (let s1 = s\<lparr>seqs := (seqs s)(g := clear_buffer (seqs s g))\<rparr>;
               s2 = once_error c (Resubscribe g) s1;
               s3 = act (Consume ch queue) (s2\<lparr>consumers := consumers s2 @ [(ch, g)]\<rparr>)
           in if initial then s3\<lparr>seqs := (seqs s3)(g := enter_loop (seqs s3 g))\<rparr> else s3)
      | _ \<Rightarrow> startConsumer_failed g initial s)"

text \<open>
  \<open>login\<close> (lines 60-88).  The new sequence runs up to its first \<open>await\<close> before
  \<open>loginInProgress\<close> is assigned.  The result is the promise the caller awaits, named by
  the sequence that settles it.
\<close>

definition login :: "'v gateway \<Rightarrow> nat \<times> 'v gateway" where
  "login s =
     (case loginInProgress s of
        Some p \<Rightarrow> (p, s)
      | None \<Rightarrow>
          (let p = fresh s;
               s1 = login_attempt p (s\<lparr>fresh := fresh s + 1, logins := logins s + 1\<rparr>)
           in (p, s1\<lparr>loginInProgress := Some p\<rparr>)))"

text \<open>\<open>await login()\<close> in a coroutine that goes on with \<open>k\<close>.\<close>

definition await_login :: "'v cont \<Rightarrow> 'v gateway \<Rightarrow> 'v gateway" where
  "await_login k s = (let (p, s1) = login s in s1\<lparr>waiters := waiters s1 @ [(p, k)]\<rparr>)"

fun continue :: "('v \<Rightarrow> string option) \<Rightarrow> 'v cont \<Rightarrow> 'v gateway \<Rightarrow> 'v gateway" where
  "continue st Boot s = s\<lparr>booted := True\<rparr>"
| "continue st CloseHandlerDone s = s"
| "continue st (Restart g) s = startConsumer g False s"
| "continue st (Republish t ex rk payload) s = publish_attempt st t ex rk payload s"

definition resume :: "('v \<Rightarrow> string option) \<Rightarrow> 'v cont \<Rightarrow> 'v gateway \<Rightarrow> 'v gateway" where
  "resume st k s = continue st k (s\<lparr>resumed := resumed s @ [k]\<rparr>)"

text \<open>The promise of sequence \<open>p\<close> resolves: the coroutines awaiting it go on, in order.\<close>

definition settle_login :: "('v \<Rightarrow> string option) \<Rightarrow> nat \<Rightarrow> 'v gateway \<Rightarrow> 'v gateway" where
  "settle_login st p s =
     fold (resume st) (map snd (filter (\<lambda>w. fst w = p) (waiters s)))
       (s\<lparr>waiters := filter (\<lambda>w. fst w \<noteq> p) (waiters s)\<rparr>)"

definition login_done :: "('v \<Rightarrow> string option) \<Rightarrow> nat \<Rightarrow> nat \<Rightarrow> 'v gateway \<Rightarrow> 'v gateway" where
  "login_done st p c s =
     (let ch = fresh s;
          s1 = s\<lparr>fresh := fresh s + 2, publisher := Some ch, owner := (owner s)(ch \<mapsto> c)\<rparr>;
          s2 = once_channel_error ch (Log PublisherChannelError) s1;
          s3 = s2\<lparr>expSleeperPublisher := fresh s + 1, loginInProgress := None,
                 pending := (pending s2)(p := None)\<rparr>
      in settle_login st p s3)"

text \<open>
  An emitter calls the listeners that are attached when the event is emitted, in the
  order of their registration; a \<open>once\<close> listener is detached when it is called.
\<close>

fun run_listener :: "listener \<Rightarrow> 'v gateway \<Rightarrow> 'v gateway" where
  "run_listener (Log l) s = act (Logged l) s"
| "run_listener (Reconnect p) s =
     (let s1 = act (Sleep p) (act (Logged ConnectionClosed) s)
      in s1\<lparr>pending := (pending s1)(fresh s1 \<mapsto> CloseBackoff), fresh := fresh s1 + 1\<rparr>)"
| "run_listener (Resubscribe g) s = await_login (Restart g) s"

definition emit_error :: "nat \<Rightarrow> 'v gateway \<Rightarrow> 'v gateway" where
  "emit_error ob s = fold run_listener (on_error s ob) (removeAllListeners_error ob s)"

definition emit_close :: "nat \<Rightarrow> 'v gateway \<Rightarrow> 'v gateway" where
  "emit_close ob s = fold run_listener (on_close s ob) (removeAllListeners_close ob s)"

definition emit_channel_error :: "nat \<Rightarrow> 'v gateway \<Rightarrow> 'v gateway" where
  "emit_channel_error ch s =
     fold run_listener (on_channel_error s ch) (removeAllListeners_channel_error ch s)"

text \<open>The driver settles the promise that coroutine \<open>t\<close> awaits (a timer only resolves).\<close>

definition drop_task :: "nat \<Rightarrow> 'v gateway \<Rightarrow> 'v gateway" where
  "drop_task t s = s\<lparr>pending := (pending s)(t := None)\<rparr>"

definition settle :: "('v \<Rightarrow> string option) \<Rightarrow> nat \<Rightarrow> bool \<Rightarrow> 'v gateway \<Rightarrow> 'v gateway" where
  "settle st t ok s =
     (case pending s t of
        None \<Rightarrow> s
      | Some LoginConnect \<Rightarrow> if ok then login_connected t s else login_catch t s
      | Some (LoginConsumerChannel c) \<Rightarrow>
          if ok then login_consumer_created t c s else login_catch t s
      | Some (LoginPublisherChannel c) \<Rightarrow> if ok then login_done st t c s else login_catch t s
      | Some LoginBackoff \<Rightarrow> if ok then login_attempt t s else s
      | Some CloseBackoff \<Rightarrow> if ok then await_login CloseHandlerDone (drop_task t s) else s
      | Some (StartConsumer g initial) \<Rightarrow>
          if ok then startConsumer_resumed g initial (drop_task t s)
          else startConsumer_failed g initial (drop_task t s)
      | Some (PublishConfirm ex rk payload) \<Rightarrow>
          if ok then (drop_task t s)\<lparr>resolved := resolved s @ [t]\<rparr>
          else publish_catch t ex rk payload s
      | Some (PublishBackoff ex rk payload) \<Rightarrow>
          if ok then await_login (Republish t ex rk payload) (drop_task t s) else s)"

text \<open>
  The driver invokes the callbacks registered on a channel; a caller creates a consume
  sequence, asks it for the next item, or calls \<open>publish\<close>.  The API exists once
  \<open>coniglio\<close> has returned (\<open>booted\<close>).
\<close>

definition deliver :: "nat \<Rightarrow> consume_message option \<Rightarrow> 'v gateway \<Rightarrow> 'v gateway" where
  "deliver ch msg s =
     s\<lparr>seqs := fold (\<lambda>r f. if fst r = ch then f(snd r := consumer_callback msg (f (snd r))) else f)
                 (consumers s) (seqs s)\<rparr>"

definition next_item :: "nat \<Rightarrow> 'v gateway \<Rightarrow> 'v gateway" where
  "next_item g s =
     (case subs s g of
        None \<Rightarrow> s
      | Some sub \<Rightarrow>
          (let s1 = s\<lparr>seqs := (seqs s)(g := next_request (seqs s g))\<rparr>
           in if phase (seqs s g) = NotStarted then startConsumer g True s1 else s1))"

datatype 'v event =
    Settle nat bool
  | EmitError nat
  | EmitClose nat
  | EmitChannelError nat
  | Deliver nat "consume_message option"
  | CallPublish string string "'v payload"
  | CallConsume string nat
  | NextItem nat
  | WakeUp nat

fun step :: "('v \<Rightarrow> string option) \<Rightarrow> 'v gateway \<Rightarrow> 'v event \<Rightarrow> 'v gateway" where
  "step st s (Settle t ok) = settle st t ok s"
| "step st s (EmitError ob) = emit_error ob s"
| "step st s (EmitClose ob) = emit_close ob s"
| "step st s (EmitChannelError ch) = emit_channel_error ch s"
| "step st s (Deliver ch msg) = deliver ch msg s"
| "step st s (CallPublish ex rk payload) =
     (if booted s then publish_attempt st (fresh s) ex rk payload (s\<lparr>fresh := fresh s + 1\<rparr>)
      else s)"
| "step st s (CallConsume queue n) =
     (if booted s
      then s\<lparr>subs := (subs s)(fresh s \<mapsto> (queue, n)),
             seqs := (seqs s)(fresh s := consumeGenerator), fresh := fresh s + 1\<rparr>
      else s)"
| "step st s (NextItem g) = next_item g s"
| "step st s (WakeUp g) = s\<lparr>seqs := (seqs s)(g := wake (seqs s g))\<rparr>"

definition run :: "('v \<Rightarrow> string option) \<Rightarrow> 'v event list \<Rightarrow> 'v gateway \<Rightarrow> 'v gateway" where
  "run st evs s = foldl (step st) s evs"

text \<open>
  \<open>coniglio(url)\<close> up to its \<open>await login()\<close> (lines 43-90): nothing is connected, the
  publish backoff instance is number 0, and the first login sequence has been started.
\<close>

definition unconnected :: "string \<Rightarrow> 'v gateway" where
  "unconnected u =
     \<lparr>url = u, conn = None, consumer = None, publisher = None, loginInProgress = None,
      expSleeperPublisher = 0, booted = False, fresh = 1,
      on_error = (\<lambda>ob. []), on_close = (\<lambda>ob. []), on_channel_error = (\<lambda>ob. []),
      owner = (\<lambda>ob. None), closed_by_us = {},
      pending = (\<lambda>t. None), waiters = [], consumers = [], subs = (\<lambda>g. None),
      seqs = (\<lambda>g. consumeGenerator), trace = [], logins = 0, resolved = [], resumed = []\<rparr>"

definition coniglio :: "string \<Rightarrow> 'v gateway" where
  "coniglio u = await_login Boot (unconnected u)"

text \<open>
  Vocabulary for the properties: a login sequence is running when its coroutine is
  suspended somewhere in the loop of lines 64-85; the gateway is fully initialised when
  \<open>conn\<close> and both channels are set, both channels were created on \<open>conn\<close>, and the program
  has closed none of the three; the setup calls are the three calls that establish them.
\<close>

fun is_login :: "'v task \<Rightarrow> bool" where
  "is_login LoginConnect = True"
| "is_login (LoginConsumerChannel c) = True"
| "is_login (LoginPublisherChannel c) = True"
| "is_login LoginBackoff = True"
| "is_login tk = False"

definition running :: "'v gateway \<Rightarrow> nat \<Rightarrow> bool" where
  "running s p = (case pending s p of None \<Rightarrow> False | Some tk \<Rightarrow> is_login tk)"

definition initialised :: "'v gateway \<Rightarrow> bool" where
  "initialised s =
     (case (conn s, consumer s, publisher s) of
        (Some c, Some ch, Some ch') \<Rightarrow>
          owner s ch = Some c \<and> owner s ch' = Some c \<and> ch \<noteq> ch'
          \<and> c \<notin> closed_by_us s \<and> ch \<notin> closed_by_us s \<and> ch' \<notin> closed_by_us s
      | _ \<Rightarrow> False)"

fun is_setup :: "action \<Rightarrow> bool" where
  "is_setup (Connect u) = True"
| "is_setup (CreateChannel c) = True"
| "is_setup (CreateConfirmChannel c) = True"
| "is_setup a = False"



fun is_publish :: "action \<Rightarrow> bool" where
  "is_publish (Publish ch ex rk body) = True"
| "is_publish a = False"


section \<open>Invariants of the gateway\<close>

text \<open>
  The coroutine of login sequence \<open>p\<close>, if it is suspended in the login loop.
\<close>

definition login_task :: "'v gateway \<Rightarrow> nat \<Rightarrow> 'v task option" where
  "login_task s p =
     (case pending s p of
        None \<Rightarrow> None
      | Some tk \<Rightarrow> if is_login tk then Some tk else None)"

text \<open>
  A step of a coroutine other than a login sequence leaves the variables of the
  connection manager, the login coroutines and the setup calls as they are.
\<close>

definition same_core :: "'v gateway \<Rightarrow> 'v gateway \<Rightarrow> bool" where
  "same_core s s' =
     (url s' = url s \<and> conn s' = conn s \<and> consumer s' = consumer s \<and> publisher s' = publisher s
      \<and> loginInProgress s' = loginInProgress s \<and> owner s' = owner s
      \<and> closed_by_us s' = closed_by_us s \<and> waiters s' = waiters s
      \<and> on_channel_error s' = on_channel_error s
      \<and> fresh s \<le> fresh s' \<and> login_task s' = login_task s
      \<and> filter is_setup (trace s') = filter is_setup (trace s))"

text \<open>
  The marker \<open>loginInProgress\<close> names the running login sequence, only that sequence
  runs, and every coroutine that awaits \<open>login()\<close> awaits that sequence.
\<close>

definition inv_login :: "'v gateway \<Rightarrow> bool" where
  "inv_login s =
     ((\<forall>p. loginInProgress s = Some p \<longrightarrow> p < fresh s \<and> running s p)
    \<and> (\<forall>p. running s p \<longrightarrow> loginInProgress s = Some p)
    \<and> (\<forall>w \<in> set (waiters s). loginInProgress s = Some (fst w)))"

text \<open>
  How far the running login sequence has got, in terms of the variables and of the setup
  calls made (most recent first); and what holds when no login sequence runs.
\<close>

definition recent_setup :: "'v gateway \<Rightarrow> action list" where
  "recent_setup s = rev (filter is_setup (trace s))"

definition inv_phase :: "'v gateway \<Rightarrow> bool" where
  "inv_phase s =
     ((\<forall>ob \<in> closed_by_us s. ob < fresh s)
    \<and> (\<forall>c. conn s = Some c \<longrightarrow> c < fresh s)
    \<and> (\<forall>c. consumer s = Some c \<longrightarrow> c < fresh s)
    \<and> (\<forall>c. publisher s = Some c \<longrightarrow> c < fresh s)
    \<and> (\<forall>p. login_task s p = Some LoginConnect \<longrightarrow> take 1 (recent_setup s) = [Connect (url s)])
    \<and> (\<forall>p c. login_task s p = Some (LoginConsumerChannel c) \<longrightarrow>
          conn s = Some c \<and> c \<notin> closed_by_us s
          \<and> take 2 (recent_setup s) = [CreateChannel c, Connect (url s)])
    \<and> (\<forall>p c. login_task s p = Some (LoginPublisherChannel c) \<longrightarrow>
          conn s = Some c \<and> c \<notin> closed_by_us s
          \<and> (\<exists>ch. consumer s = Some ch \<and> owner s ch = Some c \<and> ch \<notin> closed_by_us s)
          \<and> take 3 (recent_setup s) = [CreateConfirmChannel c, CreateChannel c, Connect (url s)])
    \<and> (loginInProgress s = None \<longrightarrow>
          initialised s
          \<and> (\<exists>c. conn s = Some c
                \<and> take 3 (recent_setup s)
                    = [CreateConfirmChannel c, CreateChannel c, Connect (url s)])))"

text \<open>Only loggers listen to the \<open>error\<close> event of a channel.\<close>

fun is_log :: "listener \<Rightarrow> bool" where
  "is_log (Log l) = True"
| "is_log l = False"

definition inv_channel :: "'v gateway \<Rightarrow> bool" where
  "inv_channel s = (\<forall>ch. list_all is_log (on_channel_error s ch))"

text \<open>
  What is observed after a connection \<open>close\<close> event in a state \<open>s\<close> where no login was in
  progress, in the state \<open>s1\<close> that follows the events of that turn: no login sequence
  has been started yet and the \<open>close\<close> listener sleeps; when its timer fires, exactly one
  more login sequence has been started, it is the one in progress, and the listener is the
  coroutine that awaits it.
\<close>

definition one_login_after_close :: "('v \<Rightarrow> string option) \<Rightarrow> 'v gateway \<Rightarrow> 'v gateway \<Rightarrow> bool" where
  "one_login_after_close st s s1 =
     (logins s1 = logins s \<and> loginInProgress s1 = None
      \<and> pending s1 (fresh s) = Some CloseBackoff
      \<and> (let s2 = step st s1 (Settle (fresh s) True)
         in logins s2 = logins s + 1 \<and> loginInProgress s2 = Some (fresh s + 1)
            \<and> running s2 (fresh s + 1) \<and> waiters s2 = [(fresh s + 1, CloseHandlerDone)]))"


section \<open>Properties of the backoff generator\<close>

subsection \<open>Rounding\<close>

lemma rne_of_int: "rne (of_int k) = k"
  by (simp add: rne_def)






lemma exponent_ge: "- 1022 \<le> exponent x"
proof (cases "\<bar>x\<bar> < 2 powr (- 1022)")
  case True
  then show ?thesis by (simp add: exponent_def)
next
  case False
  then have p: "0 < \<bar>x\<bar>" "2 powr (- 1022) \<le> \<bar>x\<bar>"
    by (auto intro: less_le_trans [of 0 "2 powr (- 1022)"])
  have "- 1022 \<le> log 2 \<bar>x\<bar>" using p by (simp add: le_log_iff)
  then have "- 1022 \<le> \<lfloor>log 2 \<bar>x\<bar>\<rfloor>" by (simp add: le_floor_iff)
  then show ?thesis using False by (simp add: exponent_def)
qed


lemma exponent_lower: "- 1022 < exponent x \<Longrightarrow> 2 powr (of_int (exponent x)) \<le> \<bar>x\<bar>"
proof -
  assume a: "- 1022 < exponent x"
  then have f: "\<not> \<bar>x\<bar> < 2 powr (- 1022)" by (auto simp: exponent_def)
  then have p: "0 < \<bar>x\<bar>" by (auto intro: less_le_trans [of 0 "2 powr (- 1022)"])
  from floor_log_eq_powr_iff [OF p, of 2 "\<lfloor>log 2 \<bar>x\<bar>\<rfloor>"] f
  show ?thesis by (simp add: exponent_def)
qed






lemma binary64_exact:
  assumes "x = of_int k * 2 powr (of_int e)" and "\<bar>k\<bar> < 2 ^ 53" and "- 1074 \<le> e"
  shows "binary64 x = x"
proof -
  define E where "E = exponent x"
  define u where "u = ulp x"
  have u: "0 < u" "u = 2 powr (of_int E - 52)" by (simp_all add: u_def E_def ulp_def)
  have le: "E - 52 \<le> e"
  proof (cases "- 1022 < E")
    case True
    have "(of_int \<bar>k\<bar> :: real) < of_int (2 ^ 53)" using assms(2) by (simp only: of_int_less_iff)
    then have "\<bar>of_int k :: real\<bar> < 2 ^ 53" by simp
    then have "\<bar>of_int k :: real\<bar> * 2 powr (of_int e) < 2 ^ 53 * 2 powr (of_int e)" by simp
    then have "\<bar>x\<bar> < 2 ^ 53 * 2 powr (of_int e)" by (simp add: assms(1) abs_mult)
    moreover have "(2::real) ^ 53 * 2 powr (of_int e) = 2 powr (of_int e + real 53)"
      using powr_add [of 2 "of_int e" "real 53"] powr_realpow [of 2 53] by simp
    moreover have "2 powr (of_int E) \<le> \<bar>x\<bar>" using exponent_lower [of x] True by (simp add: E_def)
    ultimately have "2 powr (of_int E) < 2 powr (of_int e + real 53)" by linarith
    then have "(of_int E :: real) < of_int e + real 53" by (simp only: powr_less_cancel_iff)
    then show ?thesis by linarith
  next
    case False
    with exponent_ge [of x] assms(3) show ?thesis by (simp add: E_def)
  qed
  define n where "n = nat (e - (E - 52))"
  have e: "(of_int e :: real) = (of_int E - 52) + real n" using le by (simp add: n_def)
  have "2 powr (of_int e) = 2 powr ((of_int E - 52) + real n)" by (simp only: e)
  also have "\<dots> = u * 2 ^ n"
    using powr_add [of 2 "of_int E - 52" "real n"] powr_realpow [of 2 n] by (simp add: u(2))
  finally have p: "2 powr (of_int e) = u * 2 ^ n" .
  have "x = of_int k * (u * 2 ^ n)" by (simp only: assms(1) p)
  then have q: "x = of_int (k * 2 ^ n) * u" by simp
  then have "x / u = of_int (k * 2 ^ n)" using u(1) by simp
  then have "rne (x / u) = k * 2 ^ n" by (simp only: rne_of_int)
  then have "binary64 x = of_int (k * 2 ^ n) * u" by (simp add: binary64_def u_def)
  with q show ?thesis by simp
qed




lemma binary64_of_int: "\<bar>k\<bar> < 2 ^ 53 \<Longrightarrow> binary64 (of_int k) = of_int k"
  using binary64_exact [of "of_int k" k 0] by simp

lemma binary64_numeral [simp]:
  "(numeral n :: int) < 2 ^ 53 \<Longrightarrow> binary64 (numeral n) = numeral n"
  using binary64_of_int [of "numeral n"] by simp



subsection \<open>Delays\<close>








lemma length_log_in_sequence: "length (backoff_log (in_sequence rs) s) = length rs"
  by (induction rs arbitrary: s) simp_all







section \<open>Properties of the listen pipeline\<close>

lemma listen_msg_cases:
  "listen_msg P opts msg = Nack msg False False
   \<or> listen_msg P opts msg =
       Yield \<lparr>raw = msg, content = msg_content msg,
              data = (if json_enabled opts then safeJson P (msg_content msg) else Undefined),
              contentIsJson =
                ((if json_enabled opts then safeJson P (msg_content msg) else Undefined)
                   \<noteq> Undefined),
              routingKey = msg_routingKey msg\<rparr>"
  by (simp add: listen_msg_def Let_def split: option.splits)

lemma listen_yields_raw:
  "map raw (listen_yields (listen P (Some ops) msgs))
     = filter (\<lambda>m. case routingKeys ops of None \<Rightarrow> True | Some keys \<Rightarrow> msg_routingKey m \<in> set keys)
         msgs"
  by (induction msgs) (auto simp: listen_def listen_msg_def Let_def split: option.splits)

lemma listen_nacks_eq:
  "listen_nacks (listen P (Some ops) msgs)
     = map (\<lambda>m. (m, False, False))
         (filter (\<lambda>m. case routingKeys ops of None \<Rightarrow> False | Some keys \<Rightarrow> msg_routingKey m \<notin> set keys)
            msgs)"
  by (induction msgs) (auto simp: listen_def listen_msg_def Let_def split: option.splits)

text \<open>
  Claim C6.  With an allow-list \<open>routingKeys = keys\<close>, a delivery whose routing key is not in
  the list is answered by \<open>nack(msg, false, false)\<close> (single message, no requeue) and is not
  yielded; a delivery whose routing key is in the list is yielded.  Over a whole sequence
  of deliveries the envelopes yielded are exactly those of the listed deliveries, in
  order, and the rejected ones are exactly the others.
\<close>

theorem listen_routing_filter:
  assumes "routingKeys ops = Some keys"
  shows "(msg_routingKey msg \<notin> set keys \<longrightarrow> listen_msg P (Some ops) msg = Nack msg False False)
       \<and> (msg_routingKey msg \<in> set keys \<longrightarrow>
            (\<exists>e. listen_msg P (Some ops) msg = Yield e \<and> raw e = msg
                 \<and> routingKey e = msg_routingKey msg))
       \<and> map raw (listen_yields (listen P (Some ops) msgs))
           = filter (\<lambda>m. msg_routingKey m \<in> set keys) msgs
       \<and> listen_nacks (listen P (Some ops) msgs)
           = map (\<lambda>m. (m, False, False)) (filter (\<lambda>m. msg_routingKey m \<notin> set keys) msgs)"
proof -
  have "msg_routingKey msg \<notin> set keys \<Longrightarrow> listen_msg P (Some ops) msg = Nack msg False False"
    using assms by (simp add: listen_msg_def Let_def)
  moreover have "msg_routingKey msg \<in> set keys \<Longrightarrow>
      \<exists>e. listen_msg P (Some ops) msg = Yield e \<and> raw e = msg \<and> routingKey e = msg_routingKey msg"
    using assms by (simp add: listen_msg_def Let_def)
  moreover have "map raw (listen_yields (listen P (Some ops) msgs))
      = filter (\<lambda>m. msg_routingKey m \<in> set keys) msgs"
    using assms by (simp add: listen_yields_raw)
  moreover have "listen_nacks (listen P (Some ops) msgs)
      = map (\<lambda>m. (m, False, False)) (filter (\<lambda>m. msg_routingKey m \<notin> set keys) msgs)"
    using assms by (simp add: listen_nacks_eq)
  ultimately show ?thesis by blast
qed

theorem listen_routing_filter_witness:
  "routingKeys \<lparr>json = None, prefetch = None, routingKeys = Some [''a'']\<rparr> = Some [''a'']
   \<and> listen_msg parse_literal (Some \<lparr>json = None, prefetch = None, routingKeys = Some [''a'']\<rparr>)
        \<lparr>msg_content = ''true'', msg_routingKey = ''b'', msg_deliveryTag = 1\<rparr>
     = Nack \<lparr>msg_content = ''true'', msg_routingKey = ''b'', msg_deliveryTag = 1\<rparr> False False
   \<and> listen_yields (listen parse_literal
          (Some \<lparr>json = None, prefetch = None, routingKeys = Some [''a'']\<rparr>)
          [\<lparr>msg_content = ''true'', msg_routingKey = ''b'', msg_deliveryTag = 1\<rparr>,
           \<lparr>msg_content = ''null'', msg_routingKey = ''a'', msg_deliveryTag = 2\<rparr>])
     = [\<lparr>raw = \<lparr>msg_content = ''null'', msg_routingKey = ''a'', msg_deliveryTag = 2\<rparr>,
         content = ''null'', data = Defined JNull, contentIsJson = True, routingKey = ''a''\<rparr>]"
proof -
  have h: "routingKeys \<lparr>json = None, prefetch = None, routingKeys = Some [''a'']\<rparr> = Some [''a'']"
    by simp
  have y: "listen_yields (listen parse_literal
          (Some \<lparr>json = None, prefetch = None, routingKeys = Some [''a'']\<rparr>)
          [\<lparr>msg_content = ''true'', msg_routingKey = ''b'', msg_deliveryTag = 1\<rparr>,
           \<lparr>msg_content = ''null'', msg_routingKey = ''a'', msg_deliveryTag = 2\<rparr>])
     = [\<lparr>raw = \<lparr>msg_content = ''null'', msg_routingKey = ''a'', msg_deliveryTag = 2\<rparr>,
         content = ''null'', data = Defined JNull, contentIsJson = True, routingKey = ''a''\<rparr>]"
    by (simp add: listen_def listen_msg_def Let_def json_enabled_def safeJson_def parse_literal_def)
  from listen_routing_filter [OF h,
      of "\<lparr>msg_content = ''true'', msg_routingKey = ''b'', msg_deliveryTag = 1\<rparr>" parse_literal]
    h y show ?thesis by simp
qed

text \<open>
  Claim C7.  With JSON decoding enabled (\<open>json\<close> absent, or anything but \<open>false\<close>): when the
  body does not parse, \<open>safeJson\<close> returns \<open>undefined\<close> instead of throwing, and the yielded
  envelope has \<open>contentIsJson = false\<close>, an undefined \<open>data\<close>, and the raw body and delivery
  unchanged; when the body parses to \<open>v\<close>, the envelope carries \<open>v\<close> and
  \<open>contentIsJson = true\<close>.  Decoding is enabled by default.
\<close>

theorem listen_json_decoding:
  assumes "json_enabled opts" and "listen_msg P opts msg = Yield e"
  shows "(P (msg_content msg) = None \<longrightarrow>
            safeJson P (msg_content msg) = Undefined
          \<and> contentIsJson e = False \<and> data e = Undefined
          \<and> content e = msg_content msg \<and> raw e = msg)
       \<and> (\<forall>v. P (msg_content msg) = Some v \<longrightarrow> data e = Defined v \<and> contentIsJson e = True)
       \<and> json_enabled None
       \<and> (\<forall>p r. json_enabled (Some \<lparr>json = None, prefetch = p, routingKeys = r\<rparr>))"
proof -
  from listen_msg_cases [of P opts msg] assms
  have e: "e = \<lparr>raw = msg, content = msg_content msg, data = safeJson P (msg_content msg),
      contentIsJson = (safeJson P (msg_content msg) \<noteq> Undefined),
      routingKey = msg_routingKey msg\<rparr>"
    by auto
  have n: "P (msg_content msg) = None \<Longrightarrow> safeJson P (msg_content msg) = Undefined"
    by (simp add: safeJson_def)
  have v: "P (msg_content msg) = Some v \<Longrightarrow> safeJson P (msg_content msg) = Defined v" for v
    by (simp add: safeJson_def)
  have d: "json_enabled None" "\<And>p r. json_enabled (Some \<lparr>json = None, prefetch = p, routingKeys = r\<rparr>)"
    by (simp_all add: json_enabled_def)
  from e n v d show ?thesis by simp
qed

theorem listen_json_decoding_witness:
  "json_enabled None
   \<and> listen_msg parse_literal None \<lparr>msg_content = ''not-json'', msg_routingKey = ''x'', msg_deliveryTag = 7\<rparr>
     = Yield \<lparr>raw = \<lparr>msg_content = ''not-json'', msg_routingKey = ''x'', msg_deliveryTag = 7\<rparr>,
         content = ''not-json'', data = Undefined, contentIsJson = False, routingKey = ''x''\<rparr>
   \<and> parse_literal ''not-json'' = None"
proof -
  have a: "json_enabled None" by (simp add: json_enabled_def)
  have b: "listen_msg parse_literal None
       \<lparr>msg_content = ''not-json'', msg_routingKey = ''x'', msg_deliveryTag = 7\<rparr>
     = Yield \<lparr>raw = \<lparr>msg_content = ''not-json'', msg_routingKey = ''x'', msg_deliveryTag = 7\<rparr>,
         content = ''not-json'', data = Undefined, contentIsJson = False, routingKey = ''x''\<rparr>"
    by (simp add: listen_msg_def Let_def json_enabled_def safeJson_def parse_literal_def)
  from listen_json_decoding [OF a b] a b show ?thesis by (simp add: parse_literal_def)
qed

text \<open>
  Claim C9.  With \<open>json: false\<close>, every yielded envelope has \<open>contentIsJson = false\<close> and an
  undefined \<open>data\<close>, whatever the body is (no hypothesis on the parser: the body may well
  be valid JSON); the raw body stays in \<open>content\<close>.
\<close>

theorem listen_json_disabled:
  assumes "json ops = Some False" and "listen_msg P (Some ops) msg = Yield e"
  shows "contentIsJson e = False \<and> data e = Undefined \<and> content e = msg_content msg"
proof -
  have "\<not> json_enabled (Some ops)" using assms(1) by (simp add: json_enabled_def)
  with listen_msg_cases [of P "Some ops" msg] assms(2) show ?thesis by auto
qed

theorem listen_json_disabled_witness:
  "json \<lparr>json = Some False, prefetch = None, routingKeys = None\<rparr> = Some False
   \<and> parse_literal ''true'' = Some JTrue
   \<and> listen_msg parse_literal (Some \<lparr>json = Some False, prefetch = None, routingKeys = None\<rparr>)
        \<lparr>msg_content = ''true'', msg_routingKey = ''x'', msg_deliveryTag = 3\<rparr>
     = Yield \<lparr>raw = \<lparr>msg_content = ''true'', msg_routingKey = ''x'', msg_deliveryTag = 3\<rparr>,
         content = ''true'', data = Undefined, contentIsJson = False, routingKey = ''x''\<rparr>"
proof -
  have a: "json \<lparr>json = Some False, prefetch = None, routingKeys = None\<rparr> = Some False" by simp
  have b: "listen_msg parse_literal (Some \<lparr>json = Some False, prefetch = None, routingKeys = None\<rparr>)
        \<lparr>msg_content = ''true'', msg_routingKey = ''x'', msg_deliveryTag = 3\<rparr>
     = Yield \<lparr>raw = \<lparr>msg_content = ''true'', msg_routingKey = ''x'', msg_deliveryTag = 3\<rparr>,
         content = ''true'', data = Undefined, contentIsJson = False, routingKey = ''x''\<rparr>"
    by (simp add: listen_msg_def Let_def json_enabled_def)
  from listen_json_disabled [OF a b] a b show ?thesis by (simp add: parse_literal_def)
qed


section \<open>Properties of the consume sequence\<close>

declare pull_loop.simps [simp del]

lemma pull_loop_Nil: "buffer s = [] \<Longrightarrow> pull_loop s = s\<lparr>phase := Waiting\<rparr>"
  by (subst pull_loop.simps) simp

lemma pull_loop_Cons:
  "buffer s = m # rest \<Longrightarrow>
   pull_loop s =
     (if requests s \<le> 1
      then s\<lparr>buffer := rest, yielded := yielded s @ [m], requests := 0, phase := Suspended\<rparr>
      else pull_loop (s\<lparr>buffer := rest, yielded := yielded s @ [m], requests := requests s - 1\<rparr>))"
  by (subst pull_loop.simps) (auto simp: Let_def)

lemma pull_loop_props:
  "0 < requests s \<Longrightarrow>
   yielded (pull_loop s) @ buffer (pull_loop s) = yielded s @ buffer s
   \<and> length (yielded (pull_loop s)) + requests (pull_loop s) = length (yielded s) + requests s
   \<and> ((phase (pull_loop s) = Suspended \<and> requests (pull_loop s) = 0)
      \<or> (phase (pull_loop s) = Waiting \<and> buffer (pull_loop s) = [] \<and> 0 < requests (pull_loop s)))"
proof (induction "buffer s" arbitrary: s)
  case Nil
  then show ?case by (simp add: pull_loop_Nil)
next
  case (Cons m rest)
  note b = Cons.hyps(2) [symmetric]
  show ?case
  proof (cases "requests s \<le> 1")
    case True
    with Cons.prems show ?thesis by (simp add: pull_loop_Cons [OF b] b)
  next
    case False
    let ?s = "s\<lparr>buffer := rest, yielded := yielded s @ [m], requests := requests s - 1\<rparr>"
    have "rest = buffer ?s" "0 < requests ?s" using False by simp_all
    from Cons.hyps(1) [OF this] False show ?thesis by (simp add: pull_loop_Cons [OF b] b)
  qed
qed

lemma pull_loop_live: "0 < requests s \<Longrightarrow> live (pull_loop s)"
  using pull_loop_props [of s] by (auto simp: live_def)

lemma consume_step_live: "live s \<Longrightarrow> live (consume_step s e)"
proof (cases e)
  case Next
  assume "live s"
  then show ?thesis
    using Next pull_loop_live [of "s\<lparr>requests := requests s + 1\<rparr>"]
    by (auto simp: live_def next_request_def)
next
  case (Push msg)
  assume "live s"
  then show ?thesis using Push
    by (auto simp: live_def consumer_callback_def notify_def split: option.splits)
next
  case Wake
  assume "live s"
  then show ?thesis using Wake pull_loop_live [of s] by (auto simp: live_def wake_def)
qed

lemma consume_step_conserves:
  "live s \<Longrightarrow>
   yielded (consume_step s e) @ buffer (consume_step s e)
     = yielded s @ buffer s @ pushed [e]
   \<and> length (yielded (consume_step s e)) + requests (consume_step s e)
     = length (yielded s) + requests s + pulls [e]"
proof (cases e)
  case Next
  assume "live s"
  then show ?thesis
    using Next pull_loop_props [of "s\<lparr>requests := requests s + 1\<rparr>"]
    by (auto simp: live_def next_request_def)
next
  case (Push msg)
  assume "live s"
  then show ?thesis using Push
    by (cases msg) (auto simp: live_def consumer_callback_def notify_def)
next
  case Wake
  assume "live s"
  then show ?thesis using Wake pull_loop_props [of s] by (auto simp: live_def wake_def)
qed

lemma pushed_append: "pushed (evs @ evs') = pushed evs @ pushed evs'"
  by (induction evs rule: pushed.induct) auto

lemma pulls_append: "pulls (evs @ evs') = pulls evs + pulls evs'"
  by (induction evs rule: pulls.induct) auto

lemma consume_run_snoc: "consume_run (evs @ [e]) s = consume_step (consume_run evs s) e"
  by (simp add: consume_run_def)

lemma consume_run_live: "live s \<Longrightarrow> live (consume_run evs s)"
  by (induction evs rule: rev_induct) (simp_all add: consume_run_def consume_step_live)

lemma consume_run_conserves:
  "live s \<Longrightarrow>
   yielded (consume_run evs s) @ buffer (consume_run evs s) = yielded s @ buffer s @ pushed evs
   \<and> length (yielded (consume_run evs s)) + requests (consume_run evs s)
     = length (yielded s) + requests s + pulls evs"
proof (induction evs rule: rev_induct)
  case Nil
  then show ?case by (simp add: consume_run_def)
next
  case (snoc e evs)
  from consume_step_conserves [OF consume_run_live [OF snoc.prems], of evs e] snoc.IH [OF snoc.prems]
  show ?case by (simp add: consume_run_snoc pushed_append pulls_append)
qed

lemma subscribed_eq:
  "subscribed = \<lparr>buffer = [], phase = Waiting, requests = 1, yielded = []\<rparr>"
  by (simp add: subscribed_def enter_loop_def clear_buffer_def next_request_def
      consumeGenerator_def pull_loop_Nil)

lemma live_subscribed: "live subscribed"
  by (simp add: subscribed_eq live_def)

lemma wake_settles: "live s \<Longrightarrow> phase (wake s) = Suspended \<or> phase (wake s) = Waiting"
  using pull_loop_props [of s] by (auto simp: live_def wake_def)

lemma consume_run_counts:
  "yielded (consume_run evs subscribed) @ buffer (consume_run evs subscribed) = pushed evs
   \<and> (phase (consume_run evs subscribed) \<noteq> Woken \<longrightarrow>
        yielded (consume_run evs subscribed) = take (Suc (pulls evs)) (pushed evs))
   \<and> (phase (consume_run evs subscribed) = Waiting \<longrightarrow>
        yielded (consume_run evs subscribed) = pushed evs)"
proof -
  let ?s = "consume_run evs subscribed"
  have l: "live ?s" by (rule consume_run_live [OF live_subscribed])
  have c: "yielded ?s @ buffer ?s = pushed evs"
    and n: "length (yielded ?s) + requests ?s = Suc (pulls evs)"
    using consume_run_conserves [OF live_subscribed, of evs] by (simp_all add: subscribed_eq)
  have len: "length (yielded ?s) + length (buffer ?s) = length (pushed evs)"
    using c by (metis length_append)
  have w: "yielded ?s = pushed evs" if "phase ?s = Waiting"
    using that l c by (auto simp: live_def)
  have q: "length (yielded ?s) = min (Suc (pulls evs)) (length (pushed evs))"
    if "phase ?s \<noteq> Woken"
    using that l n len by (auto simp: live_def)
  have t: "yielded ?s = take (length (yielded ?s)) (pushed evs)"
    using c by (metis append_eq_conv_conj)
  have "yielded ?s = take (Suc (pulls evs)) (pushed evs)" if "phase ?s \<noteq> Woken"
    using q [OF that] t by (simp add: min_def split: if_splits)
  with c w show ?thesis by blast
qed

text \<open>
  Claim C10.  A \<open>null\<close> message leaves the generator's state as it is: nothing is appended
  to the buffer, \<open>notify\<close> is not called (a waiting generator keeps waiting), and a run
  with a \<open>null\<close> push anywhere in it ends in the same state, with the same items yielded, as
  the run without it.
\<close>

theorem null_delivery_ignored:
  "consumer_callback None s = s
   \<and> buffer (consumer_callback None s) = buffer s
   \<and> phase (consumer_callback None s) = phase s
   \<and> consume_run (evs @ [Push None] @ evs') s = consume_run (evs @ evs') s
   \<and> pushed (evs @ [Push None] @ evs') = pushed (evs @ evs')"
  by (simp add: consumer_callback_def consume_run_def pushed_append)

text \<open>
  Claim C4.  Start from a subscribed sequence and let the consumer's requests, the
  broker's pushes and the generator's wake-ups interleave in any way (no connection
  failure: \<open>startConsumer\<close> is not run again).  Then the items yielded so far, followed by
  the buffer, are exactly the deliveries pushed so far, in push order: every delivery is
  appended once and removed once.  Whenever no wake-up is pending, the number of items
  yielded is the smaller of the number of requests and the number \<open>N\<close> of deliveries; and
  when the generator waits for a delivery, all \<open>N\<close> deliveries have been yielded.

  A pending wake-up is consumed by the continuation of \<open>await ready()\<close>: once it has run,
  the generator is stopped at a \<open>yield\<close> or waits again, and what it has yielded is exactly
  the first \<open>min (requests, N)\<close> deliveries in push order; so when the consumer has asked
  for at least \<open>N\<close> items, exactly the \<open>N\<close> deliveries have been yielded, in push order.
\<close>

theorem consume_fifo:
  "yielded (consume_run evs subscribed) @ buffer (consume_run evs subscribed) = pushed evs
   \<and> (phase (consume_run evs subscribed) \<noteq> Woken \<longrightarrow>
        length (yielded (consume_run evs subscribed))
          = min (Suc (pulls evs)) (length (pushed evs)))
   \<and> (phase (consume_run evs subscribed) = Waiting \<longrightarrow>
        yielded (consume_run evs subscribed) = pushed evs)
   \<and> phase (consume_run (evs @ [Wake]) subscribed) \<noteq> Woken
   \<and> (phase (consume_run (evs @ [Wake]) subscribed) = Suspended
      \<or> phase (consume_run (evs @ [Wake]) subscribed) = Waiting)
   \<and> yielded (consume_run (evs @ [Wake]) subscribed) = take (Suc (pulls evs)) (pushed evs)
   \<and> length (yielded (consume_run (evs @ [Wake]) subscribed))
        = min (Suc (pulls evs)) (length (pushed evs))
   \<and> (length (pushed evs) \<le> Suc (pulls evs) \<longrightarrow>
        yielded (consume_run (evs @ [Wake]) subscribed) = pushed evs)"
proof -
  let ?s = "consume_run evs subscribed"
  let ?w = "consume_run (evs @ [Wake]) subscribed"
  note a = consume_run_counts [of evs]
  have p: "phase ?w = Suspended \<or> phase ?w = Waiting"
    using wake_settles [OF consume_run_live [OF live_subscribed, of evs]]
    by (simp add: consume_run_snoc)
  then have nw: "phase ?w \<noteq> Woken" by auto
  have y: "yielded ?w = take (Suc (pulls evs)) (pushed evs)"
    using consume_run_counts [of "evs @ [Wake]"] nw by (simp add: pushed_append pulls_append)
  have q: "length (yielded ?s) = min (Suc (pulls evs)) (length (pushed evs))"
    if "phase ?s \<noteq> Woken"
    using a that by (simp add: min.commute)
  have "length (yielded ?w) = min (Suc (pulls evs)) (length (pushed evs))"
    by (simp add: y min.commute)
  with a p nw y q show ?thesis by auto
qed

theorem consume_fifo_witness:
  "consume_run [Push (Some (1::nat)), Push (Some 2), Wake, Next, Push (Some 3), Next, Next]
      subscribed
     = \<lparr>buffer = [], phase = Waiting, requests = 1, yielded = [1, 2, 3]\<rparr>
   \<and> yielded (consume_run
        [Push (Some (1::nat)), Push (Some 2), Wake, Next, Push (Some 3), Next, Next] subscribed)
     = pushed [Push (Some (1::nat)), Push (Some 2), Wake, Next, Push (Some 3), Next, Next]
   \<and> consume_run [Push (Some (1::nat)), Push (Some 2), Next] subscribed
     = \<lparr>buffer = [1, 2], phase = Woken, requests = 2, yielded = []\<rparr>
   \<and> consume_run ([Push (Some (1::nat)), Push (Some 2), Next] @ [Wake]) subscribed
     = \<lparr>buffer = [], phase = Suspended, requests = 0, yielded = [1, 2]\<rparr>
   \<and> length (pushed [Push (Some (1::nat)), Push (Some 2), Next])
       \<le> Suc (pulls [Push (Some (1::nat)), Push (Some 2), Next])
   \<and> yielded (consume_run ([Push (Some (1::nat)), Push (Some 2), Next] @ [Wake]) subscribed)
     = pushed [Push (Some (1::nat)), Push (Some 2), Next]"
proof -
  have r: "consume_run [Push (Some (1::nat)), Push (Some 2), Wake, Next, Push (Some 3), Next, Next]
      subscribed
     = \<lparr>buffer = [], phase = Waiting, requests = 1, yielded = [1, 2, 3]\<rparr>"
    by (simp add: consume_run_def subscribed_eq consumer_callback_def notify_def wake_def
        next_request_def pull_loop_Cons pull_loop_Nil)
  have v: "consume_run [Push (Some (1::nat)), Push (Some 2), Next] subscribed
     = \<lparr>buffer = [1, 2], phase = Woken, requests = 2, yielded = []\<rparr>"
    by (simp add: consume_run_def subscribed_eq consumer_callback_def notify_def wake_def
        next_request_def pull_loop_Cons pull_loop_Nil)
  have w: "consume_run ([Push (Some (1::nat)), Push (Some 2), Next] @ [Wake]) subscribed
     = \<lparr>buffer = [], phase = Suspended, requests = 0, yielded = [1, 2]\<rparr>"
    by (simp add: consume_run_def subscribed_eq consumer_callback_def notify_def wake_def
        next_request_def pull_loop_Cons pull_loop_Nil)
  from consume_fifo [of "[Push (Some (1::nat)), Push (Some 2), Wake, Next, Push (Some 3), Next, Next]"]
    consume_fifo [of "[Push (Some (1::nat)), Push (Some 2), Next]"]
    r v w show ?thesis by simp
qed


section \<open>Basic facts about the gateway\<close>

lemmas basic_defs = act_def once_error_def once_close_def once_channel_error_def
  removeAllListeners_error_def removeAllListeners_close_def removeAllListeners_channel_error_def close_channel_def close_connection_def if_defined_def
  drop_task_def

lemma login_task_update [simp]:
  "login_task (s\<lparr>pending := f(t := x)\<rparr>) =
     (login_task (s\<lparr>pending := f\<rparr>))
       (t := case x of None \<Rightarrow> None | Some tk \<Rightarrow> if is_login tk then Some tk else None)"
  "login_task (s\<lparr>pending := pending s0\<rparr>) = login_task s0"
  "login_task (s\<lparr>url := x1\<rparr>) = login_task s"
  "login_task (s\<lparr>conn := x2\<rparr>) = login_task s"
  "login_task (s\<lparr>consumer := x2\<rparr>) = login_task s"
  "login_task (s\<lparr>publisher := x2\<rparr>) = login_task s"
  "login_task (s\<lparr>loginInProgress := x2\<rparr>) = login_task s"
  "login_task (s\<lparr>expSleeperPublisher := x3\<rparr>) = login_task s"
  "login_task (s\<lparr>booted := x4\<rparr>) = login_task s"
  "login_task (s\<lparr>fresh := x3\<rparr>) = login_task s"
  "login_task (s\<lparr>on_error := x5\<rparr>) = login_task s"
  "login_task (s\<lparr>on_close := x5\<rparr>) = login_task s"
  "login_task (s\<lparr>on_channel_error := x5\<rparr>) = login_task s"
  "login_task (s\<lparr>owner := x6\<rparr>) = login_task s"
  "login_task (s\<lparr>closed_by_us := x7\<rparr>) = login_task s"
  "login_task (s\<lparr>waiters := x8\<rparr>) = login_task s"
  "login_task (s\<lparr>consumers := x9\<rparr>) = login_task s"
  "login_task (s\<lparr>subs := x10\<rparr>) = login_task s"
  "login_task (s\<lparr>seqs := x11\<rparr>) = login_task s"
  "login_task (s\<lparr>trace := x12\<rparr>) = login_task s"
  "login_task (s\<lparr>logins := x3\<rparr>) = login_task s"
  "login_task (s\<lparr>resolved := x13\<rparr>) = login_task s"
  "login_task (s\<lparr>resumed := x14\<rparr>) = login_task s"
  by (simp_all add: login_task_def fun_eq_iff)

lemma running_login_task: "running s p = (login_task s p \<noteq> None)"
  by (simp add: running_def login_task_def split: option.splits)

lemma login_task_pending:
  "pending s t = Some tk \<Longrightarrow> login_task s t = (if is_login tk then Some tk else None)"
  by (simp add: login_task_def)

lemma login_task_SomeD: "login_task s p = Some tk \<Longrightarrow> pending s p = Some tk \<and> is_login tk"
  by (simp add: login_task_def split: option.splits if_splits)

lemma cleanup_frame [simp]:
  "pending (cleanup s) = pending s" "loginInProgress (cleanup s) = loginInProgress s"
  "waiters (cleanup s) = waiters s" "fresh (cleanup s) = fresh s"
  "logins (cleanup s) = logins s" "resumed (cleanup s) = resumed s"
  "resolved (cleanup s) = resolved s" "url (cleanup s) = url s" "booted (cleanup s) = booted s"
  "conn (cleanup s) = conn s" "consumer (cleanup s) = consumer s"
  "publisher (cleanup s) = publisher s" "owner (cleanup s) = owner s"
  "login_task (cleanup s) = login_task s"
  "filter is_setup (trace (cleanup s)) = filter is_setup (trace s)"
  "expSleeperPublisher (cleanup s) = expSleeperPublisher s"
  "consumers (cleanup s) = consumers s" "subs (cleanup s) = subs s" "seqs (cleanup s) = seqs s"
  by (simp_all add: cleanup_def basic_defs Let_def split: option.splits)


lemma login_Some: "loginInProgress s = Some p \<Longrightarrow> login s = (p, s)"
  by (simp add: login_def)

lemma login_None:
  "loginInProgress s = None \<Longrightarrow>
   login s = (fresh s,
     (login_attempt (fresh s) (s\<lparr>fresh := fresh s + 1, logins := logins s + 1\<rparr>))
       \<lparr>loginInProgress := Some (fresh s)\<rparr>)"
  by (simp add: login_def Let_def)

lemma await_login_eq:
  "await_login k s = (snd (login s))\<lparr>waiters := waiters (snd (login s)) @ [(fst (login s), k)]\<rparr>"
  by (simp add: await_login_def split: prod.splits)

subsection \<open>Steps that leave the connection manager alone\<close>

lemma same_core_refl [simp]: "same_core s s"
  by (simp add: same_core_def)

lemma same_core_trans: "same_core s s' \<Longrightarrow> same_core s' s'' \<Longrightarrow> same_core s s''"
  by (simp add: same_core_def)

lemma fun_upd_None_idem [simp]: "f t = None \<Longrightarrow> f(t := None) = f"
  by (rule fun_upd_idem)

lemma same_core_publish_catch:
  "login_task s t = None \<Longrightarrow> same_core s (publish_catch t ex rk pl s)"
  by (simp add: same_core_def publish_catch_def act_def Let_def)

lemma same_core_publish_attempt:
  "login_task s t = None \<Longrightarrow> same_core s (publish_attempt st t ex rk pl s)"
  by (simp add: same_core_def publish_attempt_def publish_catch_def act_def Let_def
      split: option.splits)

lemma same_core_startConsumer_failed: "same_core s (startConsumer_failed g i s)"
  by (simp add: same_core_def startConsumer_failed_def)

lemma same_core_startConsumer:
  "login_task s (fresh s) = None \<Longrightarrow> same_core s (startConsumer g i s)"
  by (simp add: same_core_def startConsumer_def startConsumer_failed_def act_def Let_def
      split: option.splits)

lemma same_core_startConsumer_resumed: "same_core s (startConsumer_resumed g i s)"
  by (simp add: same_core_def startConsumer_resumed_def startConsumer_failed_def basic_defs
      Let_def split: option.splits)

lemma same_core_drop_task: "login_task s t = None \<Longrightarrow> same_core s (drop_task t s)"
  by (simp add: same_core_def drop_task_def)

lemma same_core_deliver: "same_core s (deliver ch msg s)"
  by (simp add: same_core_def deliver_def)

lemma same_core_next_item:
  "login_task s (fresh s) = None \<Longrightarrow> same_core s (next_item g s)"
  using same_core_startConsumer [of "s\<lparr>seqs := (seqs s)(g := next_request (seqs s g))\<rparr>" g True]
  by (auto simp: next_item_def Let_def same_core_def split: option.splits)

lemma same_core_continue:
  "\<forall>p. login_task s p = None \<Longrightarrow> same_core s (continue st k s)"
  by (cases k) (simp_all add: same_core_startConsumer same_core_publish_attempt,
      simp add: same_core_def)

lemma same_core_resume: "\<forall>p. login_task s p = None \<Longrightarrow> same_core s (resume st k s)"
  using same_core_continue [of "s\<lparr>resumed := resumed s @ [k]\<rparr>" st k]
  by (simp add: resume_def same_core_def)

lemma same_core_fold_resume:
  "\<forall>p. login_task s p = None \<Longrightarrow> same_core s (fold (resume st) ks s)"
proof (induction ks arbitrary: s)
  case Nil
  then show ?case by simp
next
  case (Cons k ks)
  have a: "same_core s (resume st k s)" by (rule same_core_resume [OF Cons.prems])
  then have "\<forall>p. login_task (resume st k s) p = None"
    using Cons.prems by (simp add: same_core_def)
  from Cons.IH [OF this] a show ?case by (auto intro: same_core_trans)
qed

lemma resumed_continue [simp]: "resumed (continue st k s) = resumed s"
  by (cases k) (simp_all add: startConsumer_def startConsumer_failed_def publish_attempt_def
      publish_catch_def act_def Let_def split: option.splits)

lemma resumed_fold_resume: "resumed (fold (resume st) ks s) = resumed s @ ks"
  by (induction ks arbitrary: s) (simp_all add: resume_def)


section \<open>At most one login sequence\<close>

lemma inv_loginI:
  assumes "\<And>p. loginInProgress s = Some p \<Longrightarrow> p < fresh s"
    and "\<And>p. loginInProgress s = Some p \<Longrightarrow> login_task s p \<noteq> None"
    and "\<And>p. login_task s p \<noteq> None \<Longrightarrow> loginInProgress s = Some p"
    and "\<And>w. w \<in> set (waiters s) \<Longrightarrow> loginInProgress s = Some (fst w)"
  shows "inv_login s"
  using assms unfolding inv_login_def running_login_task by blast

lemma inv_login_fresh: "inv_login s \<Longrightarrow> loginInProgress s = Some p \<Longrightarrow> p < fresh s"
  unfolding inv_login_def by blast

lemma inv_login_running:
  "inv_login s \<Longrightarrow> loginInProgress s = Some p \<Longrightarrow> login_task s p \<noteq> None"
  unfolding inv_login_def running_login_task by blast

lemma inv_login_marker:
  "inv_login s \<Longrightarrow> login_task s p \<noteq> None \<Longrightarrow> loginInProgress s = Some p"
  unfolding inv_login_def running_login_task by blast

lemma inv_login_waiter:
  "inv_login s \<Longrightarrow> w \<in> set (waiters s) \<Longrightarrow> loginInProgress s = Some (fst w)"
  unfolding inv_login_def by blast

lemma inv_login_same_core:
  assumes "inv_login s" and "same_core s s'"
  shows "inv_login s'"
proof (rule inv_loginI)
  have c: "loginInProgress s' = loginInProgress s" "waiters s' = waiters s"
    "fresh s \<le> fresh s'" "login_task s' = login_task s"
    using assms(2) by (simp_all add: same_core_def)
  {
    fix p assume "loginInProgress s' = Some p"
    then have p: "loginInProgress s = Some p" using c by simp
    from inv_login_fresh [OF assms(1) p] c show "p < fresh s'" by simp
    from inv_login_running [OF assms(1) p] c show "login_task s' p \<noteq> None" by simp
  next
    fix p assume "login_task s' p \<noteq> None"
    then have "login_task s p \<noteq> None" using c by simp
    from inv_login_marker [OF assms(1) this] c show "loginInProgress s' = Some p" by simp
  next
    fix w assume "w \<in> set (waiters s')"
    then have "w \<in> set (waiters s)" using c by simp
    from inv_login_waiter [OF assms(1) this] c show "loginInProgress s' = Some (fst w)" by simp
  }
qed

lemma inv_login_fresh_free: "inv_login s \<Longrightarrow> login_task s (fresh s) = None"
  using inv_login_marker [of s "fresh s"] inv_login_fresh [of s "fresh s"] by blast

lemma inv_login_other_free:
  "inv_login s \<Longrightarrow> pending s t = Some tk \<Longrightarrow> \<not> is_login tk \<Longrightarrow> login_task s t = None"
  by (simp add: login_task_def)

lemma inv_login_idle:
  assumes "inv_login s" and "loginInProgress s = None"
  shows "login_task s p = None" and "waiters s = []"
proof -
  show "login_task s p = None"
    using inv_login_marker [OF assms(1), of p] assms(2) by (cases "login_task s p") auto
  show "waiters s = []"
  proof (cases "waiters s")
    case (Cons w ws)
    then have "w \<in> set (waiters s)" by simp
    from inv_login_waiter [OF assms(1) this] assms(2) show ?thesis by simp
  qed simp
qed

lemma inv_login_unique:
  "inv_login s \<Longrightarrow> running s p \<Longrightarrow> running s q \<Longrightarrow> p = q"
  unfolding inv_login_def by (metis option.inject)

text \<open>The steps of the login sequence.\<close>

lemma inv_login_sequence_step:
  assumes "inv_login s" and "loginInProgress s = Some p"
    and "loginInProgress s' = Some p" and "waiters s' = waiters s" and "fresh s \<le> fresh s'"
    and "\<And>q. (login_task s' q \<noteq> None) = (q = p \<or> login_task s q \<noteq> None)"
  shows "inv_login s'"
proof (rule inv_loginI)
  fix q assume q: "loginInProgress s' = Some q"
  then have "q = p" using assms(3) by simp
  with inv_login_fresh [OF assms(1,2)] assms(5) show "q < fresh s'" by simp
  from \<open>q = p\<close> assms(6) show "login_task s' q \<noteq> None" by simp
next
  fix q assume "login_task s' q \<noteq> None"
  then have "q = p \<or> login_task s q \<noteq> None" using assms(6) by simp
  then show "loginInProgress s' = Some q"
    using inv_login_marker [OF assms(1), of q] assms(2,3) by auto
next
  fix w assume "w \<in> set (waiters s')"
  then have "w \<in> set (waiters s)" using assms(4) by simp
  from inv_login_waiter [OF assms(1) this] assms(2,3) show "loginInProgress s' = Some (fst w)"
    by simp
qed

lemma inv_login_login_attempt:
  "inv_login s \<Longrightarrow> loginInProgress s = Some p \<Longrightarrow> inv_login (login_attempt p s)"
  by (rule inv_login_sequence_step [of s p]) (simp_all add: login_attempt_def act_def Let_def)

lemma inv_login_login_catch:
  "inv_login s \<Longrightarrow> loginInProgress s = Some p \<Longrightarrow> inv_login (login_catch p s)"
  by (rule inv_login_sequence_step [of s p]) (simp_all add: login_catch_def act_def Let_def)

lemma inv_login_login_connected:
  "inv_login s \<Longrightarrow> loginInProgress s = Some p \<Longrightarrow> inv_login (login_connected p s)"
  by (rule inv_login_sequence_step [of s p]) (simp_all add: login_connected_def basic_defs Let_def)

lemma inv_login_login_consumer_created:
  "inv_login s \<Longrightarrow> loginInProgress s = Some p \<Longrightarrow> inv_login (login_consumer_created p c s)"
  by (rule inv_login_sequence_step [of s p])
    (simp_all add: login_consumer_created_def login_catch_def basic_defs Let_def split: option.splits)

lemma loginInProgress_login: "loginInProgress (snd (login s)) = Some (fst (login s))"
  by (cases "loginInProgress s") (simp_all add: login_None login_Some)

lemma inv_login_login:
  assumes "inv_login s"
  shows "inv_login (snd (login s))"
proof (cases "loginInProgress s")
  case None
  note idle = inv_login_idle [OF assms None]
  show ?thesis
    by (rule inv_loginI)
      (simp_all add: login_None None idle login_attempt_def act_def Let_def split: if_splits)
next
  case (Some p)
  then show ?thesis using assms by (simp add: login_Some)
qed

lemma inv_login_await_login:
  assumes "inv_login s"
  shows "inv_login (await_login k s)"
proof -
  let ?s = "snd (login s)"
  let ?w = "(fst (login s), k)"
  note l = inv_login_login [OF assms] loginInProgress_login [of s]
  show ?thesis unfolding await_login_eq
  proof (rule inv_loginI)
    fix p assume "loginInProgress (?s\<lparr>waiters := waiters ?s @ [?w]\<rparr>) = Some p"
    then have p: "loginInProgress ?s = Some p" by simp
    from inv_login_fresh [OF l(1) p] show "p < fresh (?s\<lparr>waiters := waiters ?s @ [?w]\<rparr>)"
      by simp
    from inv_login_running [OF l(1) p]
    show "login_task (?s\<lparr>waiters := waiters ?s @ [?w]\<rparr>) p \<noteq> None" by simp
  next
    fix p assume "login_task (?s\<lparr>waiters := waiters ?s @ [?w]\<rparr>) p \<noteq> None"
    then have "login_task ?s p \<noteq> None" by simp
    from inv_login_marker [OF l(1) this]
    show "loginInProgress (?s\<lparr>waiters := waiters ?s @ [?w]\<rparr>) = Some p" by simp
  next
    fix w assume "w \<in> set (waiters (?s\<lparr>waiters := waiters ?s @ [?w]\<rparr>))"
    then have "w \<in> set (waiters ?s) \<or> w = ?w" by auto
    then show "loginInProgress (?s\<lparr>waiters := waiters ?s @ [?w]\<rparr>) = Some (fst w)"
      using inv_login_waiter [OF l(1), of w] l(2) by auto
  qed
qed

text \<open>
  When the sequence settles, every coroutine that awaits \<open>login()\<close> goes on, in the order
  in which they started to wait, and none is left.
\<close>

lemma login_done_settles:
  assumes "inv_login s" and "login_task s p = Some (LoginPublisherChannel c)"
  shows "inv_login (login_done st p c s)"
    and "loginInProgress (login_done st p c s) = None"
    and "waiters (login_done st p c s) = []"
    and "resumed (login_done st p c s) = resumed s @ map snd (waiters s)"
proof -
  have lp: "loginInProgress s = Some p" using inv_login_marker [OF assms(1), of p] assms(2) by simp
  have w: "fst w = p" if "w \<in> set (waiters s)" for w
    using inv_login_waiter [OF assms(1) that] lp by simp
  then have f: "filter (\<lambda>w. fst w = p) (waiters s) = waiters s"
    "filter (\<lambda>w. fst w \<noteq> p) (waiters s) = []"
    by (simp_all add: filter_id_conv filter_empty_conv)
  define s4 where "s4 = s\<lparr>fresh := fresh s + 2, publisher := Some (fresh s),
      owner := (owner s)(fresh s \<mapsto> c),
      on_channel_error :=
        (on_channel_error s)(fresh s := on_channel_error s (fresh s) @ [Log PublisherChannelError]),
      expSleeperPublisher := fresh s + 1, loginInProgress := None,
      pending := (pending s)(p := None), waiters := []\<rparr>"
  have d: "login_done st p c s = fold (resume st) (map snd (waiters s)) s4"
    by (simp add: login_done_def settle_login_def Let_def once_channel_error_def f s4_def)
  have t: "login_task s4 q = None" for q
    using inv_login_marker [OF assms(1), of q] lp
    by (cases "login_task s q") (auto simp: s4_def)
  have i: "inv_login s4"
    by (rule inv_loginI) (simp_all add: t, simp_all add: s4_def)
  have sc: "same_core s4 (login_done st p c s)"
    unfolding d by (rule same_core_fold_resume) (simp add: t)
  show "inv_login (login_done st p c s)" by (rule inv_login_same_core [OF i sc])
  show "loginInProgress (login_done st p c s) = None"
    using sc by (simp add: same_core_def s4_def)
  show "waiters (login_done st p c s) = []"
    using sc by (simp add: same_core_def s4_def)
  show "resumed (login_done st p c s) = resumed s @ map snd (waiters s)"
    by (simp add: d resumed_fold_resume s4_def)
qed

text \<open>Listeners.\<close>

lemma inv_login_run_listener: "inv_login s \<Longrightarrow> inv_login (run_listener l s)"
proof (cases l)
  case (Log x)
  assume "inv_login s"
  then show ?thesis
    by (rule inv_login_same_core) (simp add: Log same_core_def act_def)
next
  case (Reconnect r)
  assume i: "inv_login s"
  then show ?thesis
    by (rule inv_login_same_core)
      (simp add: Reconnect same_core_def act_def Let_def inv_login_fresh_free [OF i])
next
  case (Resubscribe g)
  assume "inv_login s"
  then show ?thesis by (simp add: Resubscribe inv_login_await_login)
qed

lemma inv_login_fold_run_listener: "inv_login s \<Longrightarrow> inv_login (fold run_listener ls s)"
  by (induction ls arbitrary: s) (simp_all add: inv_login_run_listener)

lemma inv_login_emit_error: "inv_login s \<Longrightarrow> inv_login (emit_error ob s)"
  unfolding emit_error_def
  by (rule inv_login_fold_run_listener, erule inv_login_same_core)
    (simp add: same_core_def removeAllListeners_error_def)

lemma inv_login_emit_close: "inv_login s \<Longrightarrow> inv_login (emit_close ob s)"
  unfolding emit_close_def
  by (rule inv_login_fold_run_listener, erule inv_login_same_core)
    (simp add: same_core_def removeAllListeners_close_def)

lemma inv_login_on_channel_error [simp]:
  "inv_login (s\<lparr>on_channel_error := x\<rparr>) = inv_login s"
  by (simp add: inv_login_def running_login_task)

lemma inv_login_emit_channel_error: "inv_login s \<Longrightarrow> inv_login (emit_channel_error ob s)"
  unfolding emit_channel_error_def
  by (rule inv_login_fold_run_listener) (simp add: removeAllListeners_channel_error_def)

text \<open>Every event keeps the invariant.\<close>

lemma inv_login_settle:
  assumes i: "inv_login s"
  shows "inv_login (settle st t ok s)"
proof (cases "pending s t")
  case None
  then show ?thesis using i by (simp add: settle_def)
next
  case (Some tk)
  note lt = login_task_pending [OF Some]
  show ?thesis
  proof (cases tk)
    case LoginConnect
    then have "loginInProgress s = Some t" using inv_login_marker [OF i, of t] lt by simp
    then show ?thesis using Some LoginConnect i
      by (simp add: settle_def inv_login_login_connected inv_login_login_catch)
  next
    case (LoginConsumerChannel c)
    then have "loginInProgress s = Some t" using inv_login_marker [OF i, of t] lt by simp
    then show ?thesis using Some LoginConsumerChannel i
      by (simp add: settle_def inv_login_login_consumer_created inv_login_login_catch)
  next
    case (LoginPublisherChannel c)
    then have l: "login_task s t = Some (LoginPublisherChannel c)" using lt by simp
    then have "loginInProgress s = Some t" using inv_login_marker [OF i, of t] by simp
    then show ?thesis using Some LoginPublisherChannel i login_done_settles(1) [OF i l]
      by (simp add: settle_def inv_login_login_catch)
  next
    case LoginBackoff
    then have "loginInProgress s = Some t" using inv_login_marker [OF i, of t] lt by simp
    then show ?thesis using Some LoginBackoff i
      by (simp add: settle_def inv_login_login_attempt)
  next
    case CloseBackoff
    then have "same_core s (drop_task t s)" using lt by (simp add: same_core_drop_task)
    from inv_login_same_core [OF i this] show ?thesis using Some CloseBackoff i
      by (simp add: settle_def inv_login_await_login)
  next
    case (StartConsumer g ini)
    then have d: "inv_login (drop_task t s)"
      using lt inv_login_same_core [OF i same_core_drop_task [of s t]] by simp
    show ?thesis using Some StartConsumer
        inv_login_same_core [OF d same_core_startConsumer_resumed]
        inv_login_same_core [OF d same_core_startConsumer_failed]
      by (simp add: settle_def)
  next
    case (PublishConfirm ex rk pl)
    then have f: "login_task s t = None" using lt by simp
    have "same_core s ((drop_task t s)\<lparr>resolved := resolved s @ [t]\<rparr>)"
      using f by (simp add: same_core_def drop_task_def)
    from inv_login_same_core [OF i this]
      inv_login_same_core [OF i same_core_publish_catch [OF f]]
    show ?thesis using Some PublishConfirm by (simp add: settle_def)
  next
    case (PublishBackoff ex rk pl)
    then have "same_core s (drop_task t s)" using lt by (simp add: same_core_drop_task)
    from inv_login_same_core [OF i this] show ?thesis using Some PublishBackoff i
      by (simp add: settle_def inv_login_await_login)
  qed
qed

lemma inv_login_step:
  assumes i: "inv_login s"
  shows "inv_login (step st s e)"
proof (cases e)
  case (Settle t ok)
  then show ?thesis using inv_login_settle [OF i] by simp
next
  case (EmitError ob)
  then show ?thesis using inv_login_emit_error [OF i] by simp
next
  case (EmitClose ob)
  then show ?thesis using inv_login_emit_close [OF i] by simp
next
  case (EmitChannelError ch)
  then show ?thesis using inv_login_emit_channel_error [OF i] by simp
next
  case (Deliver ch msg)
  then show ?thesis using inv_login_same_core [OF i same_core_deliver] by simp
next
  case (CallPublish ex rk pl)
  note f = inv_login_fresh_free [OF i]
  have a: "same_core s (s\<lparr>fresh := fresh s + 1\<rparr>)" by (simp add: same_core_def)
  have b: "same_core (s\<lparr>fresh := fresh s + 1\<rparr>)
      (publish_attempt st (fresh s) ex rk pl (s\<lparr>fresh := fresh s + 1\<rparr>))"
    by (rule same_core_publish_attempt) (simp add: f)
  from inv_login_same_core [OF i same_core_trans [OF a b]] i show ?thesis
    using CallPublish by simp
next
  case (CallConsume queue n)
  have "same_core s (s\<lparr>subs := (subs s)(fresh s \<mapsto> (queue, n)),
      seqs := (seqs s)(fresh s := consumeGenerator), fresh := fresh s + 1\<rparr>)"
    by (simp add: same_core_def)
  from inv_login_same_core [OF i this] i show ?thesis using CallConsume by simp
next
  case (NextItem g)
  then show ?thesis
    using inv_login_same_core [OF i same_core_next_item [OF inv_login_fresh_free [OF i]]] by simp
next
  case (WakeUp g)
  have "same_core s (s\<lparr>seqs := (seqs s)(g := wake (seqs s g))\<rparr>)" by (simp add: same_core_def)
  from inv_login_same_core [OF i this] show ?thesis using WakeUp by simp
qed

lemma inv_login_run: "inv_login s \<Longrightarrow> inv_login (run st evs s)"
  unfolding run_def by (induction evs arbitrary: s) (simp_all add: inv_login_step)



section \<open>The phases of the login sequence\<close>











text \<open>The steps of the login sequence.\<close>

lemma login_task_login_attempt [simp]:
  "login_task (login_attempt p s) = (login_task s)(p \<mapsto> LoginConnect)"
  by (simp add: login_attempt_def act_def Let_def)

lemma login_task_login_catch [simp]:
  "login_task (login_catch p s) = (login_task s)(p \<mapsto> LoginBackoff)"
  by (simp add: login_catch_def act_def Let_def)

lemma login_task_login_connected [simp]:
  "login_task (login_connected p s) = (login_task s)(p \<mapsto> LoginConsumerChannel (fresh s))"
  by (simp add: login_connected_def basic_defs Let_def)













lemma initialised_waiters [simp]: "initialised (s\<lparr>waiters := w\<rparr>) = initialised s"
  by (simp add: initialised_def split: option.splits)

lemma inv_phase_waiters [simp]: "inv_phase (s\<lparr>waiters := w\<rparr>) = inv_phase s"
  by (simp add: inv_phase_def recent_setup_def)






lemma initialised_on_channel_error [simp]:
  "initialised (s\<lparr>on_channel_error := x\<rparr>) = initialised s"
  by (simp add: initialised_def split: option.splits)

lemma inv_phase_on_channel_error [simp]:
  "inv_phase (s\<lparr>on_channel_error := x\<rparr>) = inv_phase s"
  by (simp add: inv_phase_def recent_setup_def)








section \<open>The listeners of a channel\<close>

lemma inv_channel_same_core: "inv_channel s \<Longrightarrow> same_core s s' \<Longrightarrow> inv_channel s'"
  by (simp add: inv_channel_def same_core_def)

lemma inv_channel_cleanup: "inv_channel s \<Longrightarrow> inv_channel (cleanup s)"
  by (simp add: inv_channel_def cleanup_def basic_defs Let_def split: option.splits)

lemma inv_channel_login_attempt: "inv_channel s \<Longrightarrow> inv_channel (login_attempt p s)"
  using inv_channel_cleanup [of s] by (simp add: inv_channel_def login_attempt_def act_def Let_def)

lemma inv_channel_login_catch: "inv_channel s \<Longrightarrow> inv_channel (login_catch p s)"
  by (simp add: inv_channel_def login_catch_def act_def Let_def)

lemma inv_channel_login_connected: "inv_channel s \<Longrightarrow> inv_channel (login_connected p s)"
  by (simp add: inv_channel_def login_connected_def basic_defs Let_def)

lemma inv_channel_login_consumer_created:
  "inv_channel s \<Longrightarrow> inv_channel (login_consumer_created p c s)"
  by (simp add: inv_channel_def login_consumer_created_def login_catch_def basic_defs Let_def
      split: option.splits)

lemma on_channel_error_fold_resume:
  "on_channel_error (fold (resume st) ks s) = on_channel_error s"
proof (induction ks arbitrary: s)
  case Nil
  then show ?case by simp
next
  case (Cons k ks)
  have "on_channel_error (resume st k s) = on_channel_error s"
    by (cases k)
      (simp_all add: resume_def startConsumer_def startConsumer_failed_def publish_attempt_def
        publish_catch_def act_def Let_def split: option.splits)
  with Cons.IH [of "resume st k s"] show ?case by simp
qed

lemma inv_channel_login_done: "inv_channel s \<Longrightarrow> inv_channel (login_done st p c s)"
  by (simp add: inv_channel_def login_done_def settle_login_def on_channel_error_fold_resume
      basic_defs Let_def)

lemma inv_channel_login: "inv_channel s \<Longrightarrow> inv_channel (snd (login s))"
  using inv_channel_login_attempt [of "s\<lparr>fresh := fresh s + 1, logins := logins s + 1\<rparr>" "fresh s"]
  by (cases "loginInProgress s") (simp_all add: login_None login_Some inv_channel_def)

lemma inv_channel_await_login: "inv_channel s \<Longrightarrow> inv_channel (await_login k s)"
  using inv_channel_login [of s] by (simp add: await_login_eq inv_channel_def)

lemma inv_channel_run_listener: "inv_channel s \<Longrightarrow> inv_channel (run_listener l s)"
  by (cases l) (simp_all add: inv_channel_await_login, simp_all add: inv_channel_def act_def Let_def)

lemma inv_channel_fold_run_listener: "inv_channel s \<Longrightarrow> inv_channel (fold run_listener ls s)"
  by (induction ls arbitrary: s) (simp_all add: inv_channel_run_listener)

lemma inv_channel_settle:
  assumes i: "inv_channel s"
  shows "inv_channel (settle st t ok s)"
proof (cases "pending s t")
  case None
  then show ?thesis using i by (simp add: settle_def)
next
  case (Some tk)
  have d: "inv_channel (drop_task t s)" using i by (simp add: inv_channel_def drop_task_def)
  show ?thesis
  proof (cases tk)
    case (StartConsumer g ini)
    then show ?thesis using Some
        inv_channel_same_core [OF d same_core_startConsumer_resumed]
        inv_channel_same_core [OF d same_core_startConsumer_failed]
      by (simp add: settle_def)
  next
    case (PublishConfirm ex rk pl)
    have "inv_channel ((drop_task t s)\<lparr>resolved := resolved s @ [t]\<rparr>)"
      using d by (simp add: inv_channel_def)
    moreover have "inv_channel (publish_catch t ex rk pl s)"
      using i by (simp add: inv_channel_def publish_catch_def act_def Let_def)
    ultimately show ?thesis using Some PublishConfirm by (simp add: settle_def)
  qed (use Some i d in \<open>simp_all add: settle_def inv_channel_login_connected
      inv_channel_login_catch inv_channel_login_consumer_created inv_channel_login_done
      inv_channel_login_attempt inv_channel_await_login\<close>)
qed

lemma inv_channel_step:
  assumes i: "inv_channel s"
  shows "inv_channel (step st s e)"
proof (cases e)
  case (Settle t ok)
  then show ?thesis using inv_channel_settle [OF i] by simp
next
  case (EmitError ob)
  have "inv_channel (removeAllListeners_error ob s)"
    using i by (simp add: inv_channel_def removeAllListeners_error_def)
  then show ?thesis using EmitError by (simp add: emit_error_def inv_channel_fold_run_listener)
next
  case (EmitClose ob)
  have "inv_channel (removeAllListeners_close ob s)"
    using i by (simp add: inv_channel_def removeAllListeners_close_def)
  then show ?thesis using EmitClose by (simp add: emit_close_def inv_channel_fold_run_listener)
next
  case (EmitChannelError ch)
  have "inv_channel (removeAllListeners_channel_error ch s)"
    using i by (simp add: inv_channel_def removeAllListeners_channel_error_def)
  then show ?thesis using EmitChannelError
    by (simp add: emit_channel_error_def inv_channel_fold_run_listener)
next
  case (Deliver ch msg)
  then show ?thesis using i by (simp add: inv_channel_def deliver_def)
next
  case (CallPublish ex rk pl)
  then show ?thesis using i
    by (simp add: inv_channel_def publish_attempt_def publish_catch_def act_def Let_def
        split: option.splits)
next
  case (CallConsume queue n)
  then show ?thesis using i by (simp add: inv_channel_def)
next
  case (NextItem g)
  then show ?thesis using i
    by (simp add: inv_channel_def next_item_def startConsumer_def startConsumer_failed_def
        act_def Let_def split: option.splits)
next
  case (WakeUp g)
  then show ?thesis using i by (simp add: inv_channel_def)
qed

lemma inv_channel_run: "inv_channel s \<Longrightarrow> inv_channel (run st evs s)"
  unfolding run_def by (induction evs arbitrary: s) (simp_all add: inv_channel_step)

lemma inv_channel_coniglio: "inv_channel (coniglio u)"
  unfolding coniglio_def
  by (rule inv_channel_await_login) (simp add: inv_channel_def unconnected_def)

lemma emit_channel_error_logs:
  assumes "inv_channel s"
  shows "emit_channel_error ch s =
    s\<lparr>on_channel_error := (on_channel_error s)(ch := []),
      trace := trace s @ map (\<lambda>l. case l of Log x \<Rightarrow> Logged x | _ \<Rightarrow> Logged ConnectionError)
        (on_channel_error s ch)\<rparr>"
proof -
  have "list_all is_log ls \<Longrightarrow>
      fold run_listener ls x =
        x\<lparr>trace := trace x @ map (\<lambda>l. case l of Log x \<Rightarrow> Logged x | _ \<Rightarrow> Logged ConnectionError) ls\<rparr>"
    for ls and x :: "'a gateway"
  proof (induction ls arbitrary: x)
    case Nil
    then show ?case by simp
  next
    case (Cons l ls)
    then show ?case by (cases l) (simp_all add: act_def)
  qed
  from this [of "on_channel_error s ch" "removeAllListeners_channel_error ch s"] assms
  show ?thesis
    by (simp add: emit_channel_error_def inv_channel_def removeAllListeners_channel_error_def)
qed


section \<open>The connection manager\<close>

lemma url_fold_resume: "url (fold (resume st) ks s) = url s"
proof (induction ks arbitrary: s)
  case Nil
  then show ?case by simp
next
  case (Cons k ks)
  have "url (resume st k s) = url s"
    by (cases k)
      (simp_all add: resume_def startConsumer_def startConsumer_failed_def publish_attempt_def
        publish_catch_def act_def Let_def split: option.splits)
  with Cons.IH [of "resume st k s"] show ?case by simp
qed

lemma url_login [simp]: "url (snd (login s)) = url s"
  by (cases "loginInProgress s") (simp_all add: login_None login_Some login_attempt_def act_def Let_def)

lemma url_await_login [simp]: "url (await_login k s) = url s"
  by (simp add: await_login_eq)

lemma url_run_listener [simp]: "url (run_listener l s) = url s"
  by (cases l) (simp_all add: act_def Let_def)

lemma url_fold_run_listener [simp]: "url (fold run_listener ls s) = url s"
  by (induction ls arbitrary: s) simp_all

lemma url_settle [simp]: "url (settle st t ok s) = url s"
proof (cases "pending s t")
  case None
  then show ?thesis by (simp add: settle_def)
next
  case (Some tk)
  then show ?thesis
    by (cases tk)
      (simp_all add: settle_def login_connected_def login_catch_def login_consumer_created_def
        login_done_def settle_login_def url_fold_resume login_attempt_def basic_defs Let_def
        startConsumer_resumed_def startConsumer_failed_def publish_catch_def
        split: option.splits)
qed

lemma url_step [simp]: "url (step st s e) = url s"
  by (cases e)
    (simp_all add: emit_error_def emit_close_def emit_channel_error_def basic_defs deliver_def
      publish_attempt_def publish_catch_def next_item_def startConsumer_def
      startConsumer_failed_def Let_def split: option.splits)

lemma url_run [simp]: "url (run st evs s) = url s"
  unfolding run_def by (induction evs arbitrary: s) simp_all

lemma url_coniglio [simp]: "url (coniglio u) = u"
  by (simp add: coniglio_def unconnected_def)












end
